theory Spec2Isabelle
  imports Complex_Main "HOL-Library.Word" "HOL-Library.Sublist" "HOL-Library.Multiset"
    "HOL-Library.AList" "HOL-Library.Log_Nat"
begin

section \<open>Python values and exceptions\<close>

text \<open>
  The module \<^verbatim>\<open>instruments/python/common.py\<close> is embedded function by function.
  A Python exception is a value of \<open>error\<close>; a function that can raise returns
  \<open>error + 'a\<close>, with \<open>Inl\<close> for the exception.
\<close>

datatype error =
  KeyError | IndexError | TypeError | ValueError | AttributeError | MergeError
  | UnboundLocalError | RegexError

text \<open>
  The decoded body of a response, as \<^verbatim>\<open>r.json()\<close> returns it. A \<open>JObj\<close> holds the
  items of a Python dict (its keys are distinct).
\<close>

datatype json = JNull | JNum int | JStr string | JList "json list" | JObj "(string \<times> json) list"

record response =
  status_code :: nat
  json_body :: "json option"
  text_body :: string

text \<open>\<^verbatim>\<open>requests.codes.ok\<close>\<close>

definition codes_ok :: nat where
  "codes_ok = 200"

text \<open>\<^verbatim>\<open>r.json()\<close> raises a ValueError when the body is not JSON.\<close>

definition response_json :: "response \<Rightarrow> error + json" where
  "response_json r = (case json_body r of None \<Rightarrow> Inl ValueError | Some j \<Rightarrow> Inr j)"

text \<open>\<^verbatim>\<open>d[k]\<close> for a string key \<open>k\<close>.\<close>

fun getitem_str :: "json \<Rightarrow> string \<Rightarrow> error + json" where
  "getitem_str (JObj kvs) k = (case map_of kvs k of None \<Rightarrow> Inl KeyError | Some v \<Rightarrow> Inr v)"
| "getitem_str _ k = Inl TypeError"

text \<open>\<^verbatim>\<open>d[i]\<close> for a non-negative integer index \<open>i\<close>.\<close>

fun getitem_nat :: "json \<Rightarrow> nat \<Rightarrow> error + json" where
  "getitem_nat (JList xs) i = (if i < length xs then Inr (xs ! i) else Inl IndexError)"
| "getitem_nat (JStr s) i = (if i < length s then Inr (JStr [s ! i]) else Inl IndexError)"
| "getitem_nat (JObj kvs) i = Inl KeyError"
| "getitem_nat _ i = Inl TypeError"

text \<open>\<^verbatim>\<open>x + '...'\<close> for a string literal on the right.\<close>

fun add_str :: "json \<Rightarrow> string \<Rightarrow> error + string" where
  "add_str (JStr s) t = Inr (s @ t)"
| "add_str _ t = Inl TypeError"

text \<open>The truth value of an optional string argument: \<^verbatim>\<open>None\<close> and \<^verbatim>\<open>''\<close> are false.\<close>

fun truthy :: "string option \<Rightarrow> bool" where
  "truthy None = False"
| "truthy (Some s) = (s \<noteq> [])"

section \<open>The export request and the completion poller: \<^verbatim>\<open>m2m_request\<close>\<close>

definition BASE_URL :: string where
  "BASE_URL = ''https://ooinet.oceanobservatories.org/api/m2m/''"

definition SENSOR_URL :: string where
  "SENSOR_URL = ''12576/sensor/inv/''"

definition begin_date :: "string option \<Rightarrow> string" where
  "begin_date start =
     (case start of
        Some s \<Rightarrow> (if truthy start then ''?beginDT='' @ s else ''?beginDT=0'')
      | None \<Rightarrow> ''?beginDT=0'')"

definition end_date :: "string option \<Rightarrow> string" where
  "end_date stop =
     (case stop of
        Some s \<Rightarrow> (if truthy stop then ''&endDT='' @ s else '''')
      | None \<Rightarrow> '''')"

definition options :: "string option \<Rightarrow> string option \<Rightarrow> string" where
  "options start stop = begin_date start @ end_date stop @ ''&format=application/netcdf''"

definition request_url ::
  "string \<Rightarrow> string \<Rightarrow> string \<Rightarrow> string \<Rightarrow> string \<Rightarrow> string option \<Rightarrow> string option \<Rightarrow> string"
where
  "request_url site node sensor method stream start stop =
     BASE_URL @ SENSOR_URL @ site @ ''/'' @ node @ ''/'' @ sensor @ ''/'' @ method @ ''/'' @ stream
       @ options start stop"

text \<open>
  The state of the polling loop: the number of status checks made so far, the sleeps
  taken (in seconds, oldest first), the progress bar's counter, and the local variable
  \<^verbatim>\<open>elapsed\<close>, which is unbound (\<open>None\<close>) until the \<^verbatim>\<open>else\<close> branch assigns it.
\<close>

record poll_state =
  checks :: nat
  sleeps :: "nat list"
  bar_n :: nat
  elapsed :: "rat option"
  printed :: bool

definition poll_init :: poll_state where
  "poll_init = \<lparr>checks = 0, sleeps = [], bar_n = 0, elapsed = None, printed = False\<rparr>"

text \<open>
  \<^verbatim>\<open>for i in range(200)\<close>, as a recursion over the list of the remaining values of \<open>i\<close>.
  \<open>status i\<close> is the status code that the check made in iteration \<open>i\<close> receives. The
  result pairs the state reached with \<open>Inl\<close> of the exception raised, or with \<open>Inr ()\<close>
  when the loop ends, by \<^verbatim>\<open>break\<close> or by exhausting the range.
\<close>

fun poll_loop :: "(nat \<Rightarrow> nat) \<Rightarrow> nat list \<Rightarrow> poll_state \<Rightarrow> poll_state \<times> (error + unit)" where
  "poll_loop status [] st = (st, Inr ())"
| "poll_loop status (i # rest) st =
     (let st1 = st\<lparr>checks := checks st + 1, bar_n := bar_n st + 1\<rparr> in
      if status i = codes_ok then
        (let st2 = st1\<lparr>bar_n := 200\<rparr> in
         case elapsed st2 of
           None \<Rightarrow> (st2, Inl UnboundLocalError)
         | Some e \<Rightarrow> (st2\<lparr>printed := True\<rparr>, Inr ()))
      else
        poll_loop status rest
          (st1\<lparr>sleeps := sleeps st1 @ [3], elapsed := Some (of_nat (i * 3) / 60)\<rparr>))"

text \<open>
  \<^verbatim>\<open>m2m_request\<close>. \<open>submit\<close> answers the export request, \<open>status url i\<close> is the status
  code of the check of \<open>url\<close> in iteration \<open>i\<close>. The result is the final polling state
  and what the call does: raise (\<open>Inl\<close>), return \<^verbatim>\<open>None\<close> (\<open>Inr None\<close>) or return
  \<^verbatim>\<open>data\<close> (\<open>Inr (Some data)\<close>).
\<close>

definition m2m_request ::
  "(string \<Rightarrow> response) \<Rightarrow> (string \<Rightarrow> nat \<Rightarrow> nat) \<Rightarrow>
   string \<Rightarrow> string \<Rightarrow> string \<Rightarrow> string \<Rightarrow> string \<Rightarrow> string option \<Rightarrow> string option \<Rightarrow>
   poll_state \<times> (error + json option)"
where
  "m2m_request submit status site node sensor method stream start stop =
     (let r = submit (request_url site node sensor method stream start stop) in
      if status_code r = codes_ok then
        (case response_json r of
           Inl e \<Rightarrow> (poll_init, Inl e)
         | Inr data \<Rightarrow>
            (case getitem_str data ''allURLs'' of
               Inl e \<Rightarrow> (poll_init, Inl e)
             | Inr urls \<Rightarrow>
                (case getitem_nat urls 1 of
                   Inl e \<Rightarrow> (poll_init, Inl e)
                 | Inr u \<Rightarrow>
                    (case add_str u ''/status.txt'' of
                       Inl e \<Rightarrow> (poll_init, Inl e)
                     | Inr check_complete \<Rightarrow>
                        (case poll_loop (status check_complete) [0..<200] poll_init of
                           (st, Inl e) \<Rightarrow> (st, Inl e)
                         | (st, Inr u) \<Rightarrow> (st, Inr (Some data)))))))
      else (poll_init, Inr None))"

section \<open>Regular expressions: the part of \<^verbatim>\<open>re\<close> that the module uses\<close>

text \<open>
  A compiled pattern is a sequence of items: the anchors \<^verbatim>\<open>^\<close> and \<^verbatim>\<open>$\<close>, and a
  one-character atom (a literal character, or \<^verbatim>\<open>.\<close>, which is any character but a
  newline), alone or under one of the greedy quantifiers \<^verbatim>\<open>?\<close>, \<^verbatim>\<open>*\<close>, \<^verbatim>\<open>+\<close>. The literal
  patterns of the module (\<^verbatim>\<open>^.+_qc_.+$\<close>, \<^verbatim>\<open>catalog.html\?dataset=\<close>, ...) and tags such as
  \<^verbatim>\<open>\.nc$\<close> are of this form.
\<close>

datatype atom = Chr char | Dot

datatype item = Bol | Eol | One atom | Opt atom | Star atom | Plus atom

type_synonym pattern = "item list"

definition newline :: char where
  "newline = CHR 0x0A"

fun atom_ok :: "atom \<Rightarrow> char \<Rightarrow> bool" where
  "atom_ok (Chr a) c = (a = c)"
| "atom_ok Dot c = (c \<noteq> newline)"

text \<open>
  \<open>rx_match p at0 s\<close>: the items \<open>p\<close> match a prefix of \<open>s\<close>; \<open>at0\<close> says that \<open>s\<close> is
  the whole subject string, where \<^verbatim>\<open>^\<close> matches. \<^verbatim>\<open>$\<close> matches at the end of the string
  and before a newline that ends it. Whether some way of matching exists does not
  depend on the order in which a backtracking matcher tries them.
\<close>

fun rx_match :: "pattern \<Rightarrow> bool \<Rightarrow> string \<Rightarrow> bool" where
  "rx_match [] at0 s = True"
| "rx_match (Bol # p) at0 s = (at0 \<and> rx_match p at0 s)"
| "rx_match (Eol # p) at0 s = ((s = [] \<or> s = [newline]) \<and> rx_match p at0 s)"
| "rx_match (One a # p) at0 s =
     (case s of [] \<Rightarrow> False | c # cs \<Rightarrow> atom_ok a c \<and> rx_match p False cs)"
| "rx_match (Opt a # p) at0 s =
     (rx_match p at0 s \<or> (case s of [] \<Rightarrow> False | c # cs \<Rightarrow> atom_ok a c \<and> rx_match p False cs))"
| "rx_match (Star a # p) at0 s =
     (rx_match p at0 s
      \<or> (case s of [] \<Rightarrow> False | c # cs \<Rightarrow> atom_ok a c \<and> rx_match (Star a # p) False cs))"
| "rx_match (Plus a # p) at0 s =
     (case s of [] \<Rightarrow> False | c # cs \<Rightarrow> atom_ok a c \<and> rx_match (Star a # p) False cs)"

text \<open>\<^verbatim>\<open>pattern.match(s)\<close>: a match that starts at the beginning of \<open>s\<close>.\<close>

definition re_match :: "pattern \<Rightarrow> string \<Rightarrow> bool" where
  "re_match p s = rx_match p True s"

text \<open>\<^verbatim>\<open>pattern.search(s)\<close>: a match that starts anywhere in \<open>s\<close>.\<close>

definition re_search :: "pattern \<Rightarrow> string \<Rightarrow> bool" where
  "re_search p s = list_ex (\<lambda>i. rx_match p (i = 0) (drop i s)) [0..<Suc (length s)]"

text \<open>
  \<^verbatim>\<open>re.compile(tag)\<close> on a tag that the caller supplies: the tag can be any regular
  expression, so what \<^verbatim>\<open>re\<close> makes of it is a parameter. A regex library gives, for the
  source text of a pattern, the strings in which the compiled pattern finds a match
  (\<^verbatim>\<open>pattern.search(s)\<close> is not \<^verbatim>\<open>None\<close>), or \<open>None\<close> where \<^verbatim>\<open>re.compile\<close> raises
  \<^verbatim>\<open>re.error\<close>.
\<close>

type_synonym regex_library = "string \<Rightarrow> (string \<Rightarrow> bool) option"

text \<open>
  \<^verbatim>\<open>re.sub(pattern, repl, s)\<close> for a pattern of atoms without quantifiers and a
  replacement without backslashes: every match, found from left to right and not
  overlapping the one before, is replaced. The counter is the number of characters of
  the current match that are still to be skipped.
\<close>

fun atoms_prefix :: "atom list \<Rightarrow> string \<Rightarrow> bool" where
  "atoms_prefix [] s = True"
| "atoms_prefix (a # as) [] = False"
| "atoms_prefix (a # as) (c # cs) = (atom_ok a c \<and> atoms_prefix as cs)"

fun sub_from :: "atom list \<Rightarrow> string \<Rightarrow> nat \<Rightarrow> string \<Rightarrow> string" where
  "sub_from p repl k [] = []"
| "sub_from p repl (Suc k) (c # cs) = sub_from p repl k cs"
| "sub_from p repl 0 (c # cs) =
     (if atoms_prefix p (c # cs) then repl @ sub_from p repl (length p - 1) cs
      else c # sub_from p repl 0 cs)"

definition re_sub :: "atom list \<Rightarrow> string \<Rightarrow> string \<Rightarrow> string" where
  "re_sub p repl s = sub_from p repl 0 s"

section \<open>The catalog collector: \<^verbatim>\<open>list_files\<close>\<close>

text \<open>
  An anchor element of the parsed catalog page: its \<^verbatim>\<open>href\<close> attribute
  (\<^verbatim>\<open>node.get('href')\<close>, \<open>None\<close> when the attribute is missing) and its link text
  (\<^verbatim>\<open>node.string\<close>, \<open>None\<close> when the element has no single string). The page behind a URL
  is given by its anchors in document order.
\<close>

record anchor =
  href :: "string option"
  link_text :: "string option"

text \<open>
  \<^verbatim>\<open>soup.find_all('a', text=pattern)\<close> keeps the anchors whose string the pattern finds
  by \<^verbatim>\<open>search\<close>; an anchor without a string is not kept, whatever the pattern.
\<close>

definition text_matches :: "(string \<Rightarrow> bool) \<Rightarrow> anchor \<Rightarrow> bool" where
  "text_matches search a = (case link_text a of None \<Rightarrow> False | Some t \<Rightarrow> search t)"

definition list_files ::
  "regex_library \<Rightarrow> (string \<Rightarrow> anchor list) \<Rightarrow> string \<Rightarrow> string \<Rightarrow> error + string option list"
where
  "list_files re_compile pages url tag =
     (case re_compile tag of
        None \<Rightarrow> Inl RegexError
      | Some search \<Rightarrow> Inr (map href (filter (text_matches search) (pages url))))"

section \<open>Floating-point numbers\<close>

text \<open>
  A \<^verbatim>\<open>float\<close> is an IEEE 754 binary64 number, modelled by the rational it stands
  for. \<open>fl64 x\<close> is the float nearest to \<open>x\<close>, ties to the even significand: the
  result of a conversion from an integer and of one arithmetic operation on floats,
  applied to the exact result. A float other than zero is \<open>m * 2 ^ e\<close> with
  \<open>2 ^ 52 \<le> \<bar>m\<bar> < 2 ^ 53\<close>; the bounds on the exponent \<open>e\<close> are not modelled (no value
  computed here comes near them), nor are infinities and NaN.
\<close>

text \<open>\<open>floor_log2 y\<close> is the \<open>k\<close> with \<open>2 ^ k \<le> y < 2 ^ (k + 1)\<close>, for \<open>y > 0\<close>.\<close>

definition floor_log2 :: "rat \<Rightarrow> int" where
  "floor_log2 y =
     (case quotient_of y of
        (a, b) \<Rightarrow> let k = bitlen a - bitlen b in if 2 powi k \<le> y then k else k - 1)"

definition round_half_even :: "rat \<Rightarrow> int" where
  "round_half_even y =
     (let f = \<lfloor>y\<rfloor>; d = y - of_int f in
      if d < 1 / 2 then f else if 1 / 2 < d then f + 1 else if even f then f else f + 1)"

definition fl64 :: "rat \<Rightarrow> rat" where
  "fl64 x =
     (if x = 0 then 0
      else let e = floor_log2 \<bar>x\<bar> - 52 in of_int (round_half_even (x / 2 powi e)) * 2 powi e)"

section \<open>Datasets: the part of \<^verbatim>\<open>xarray\<close> that the module uses\<close>

text \<open>
  A value of an array is an integer (the integer types, and \<^verbatim>\<open>datetime64[ns]\<close> as its
  count of nanoseconds since 1970-01-01), a float (the rational it stands for) or an
  unsigned 8-bit integer. An array is a cell (no dimension) or a row of arrays of one
  shape. An attribute is a string, a number or an array of unsigned 8-bit integers.
\<close>

datatype cell = I int | F rat | U8 "8 word"

datatype nd = Cell cell | Arr "nd list"

datatype attr = AStr string | ANum cell | AMasks "8 word list"

type_synonym attrs = "(string \<times> attr) list"

text \<open>
  A variable has named dimensions, data and attributes; a dataset has variables (a
  dict, in insertion order), the names of those that are coordinates, and global
  attributes.
\<close>

record variable =
  dims :: "string list"
  vdata :: nd
  vattrs :: attrs

record dataset =
  variables :: "(string \<times> variable) list"
  coord_names :: "string list"
  attrs :: attrs

text \<open>Sequencing of calls that can raise.\<close>

definition and_then :: "error + 'a \<Rightarrow> ('a \<Rightarrow> error + 'b) \<Rightarrow> error + 'b" where
  "and_then r f = (case r of Inl e \<Rightarrow> Inl e | Inr x \<Rightarrow> f x)"

subsection \<open>Arrays\<close>

fun nd_shape :: "nd \<Rightarrow> nat list" where
  "nd_shape (Cell c) = []"
| "nd_shape (Arr xs) = length xs # (case xs of [] \<Rightarrow> [] | x # _ \<Rightarrow> nd_shape x)"

fun has_shape :: "nat list \<Rightarrow> nd \<Rightarrow> bool" where
  "has_shape [] (Cell c) = True"
| "has_shape (n # ns) (Arr xs) = (length xs = n \<and> list_all (has_shape ns) xs)"
| "has_shape [] (Arr xs) = False"
| "has_shape (n # ns) (Cell c) = False"

text \<open>\<^verbatim>\<open>a[i, ...]\<close> along axis \<open>k\<close>, for the indices \<open>idx\<close> in turn (\<^verbatim>\<open>numpy.take\<close>).\<close>

fun nd_take :: "nat \<Rightarrow> nat list \<Rightarrow> nd \<Rightarrow> nd" where
  "nd_take 0 idx (Arr xs) = Arr (map (\<lambda>i. xs ! i) idx)"
| "nd_take (Suc k) idx (Arr xs) = Arr (map (nd_take k idx) xs)"
| "nd_take k idx (Cell c) = Cell c"

text \<open>\<^verbatim>\<open>astype(float)\<close> on a value; an integer is rounded to the nearest float.\<close>

fun astype_float :: "cell \<Rightarrow> rat" where
  "astype_float (I n) = fl64 (of_int n)"
| "astype_float (F r) = r"
| "astype_float (U8 w) = of_nat (unat w)"

fun nd_map :: "(cell \<Rightarrow> cell) \<Rightarrow> nd \<Rightarrow> nd" where
  "nd_map f (Cell c) = Cell (f c)"
| "nd_map f (Arr xs) = Arr (map (nd_map f) xs)"

text \<open>
  The type of the values of an array, in the order of \<^verbatim>\<open>numpy\<close>'s promotion: unsigned
  8-bit integer, integer, float. Arrays of different types are joined in the highest
  of their types, to which every value is converted.
\<close>

fun kind :: "cell \<Rightarrow> nat" where
  "kind (U8 w) = 0"
| "kind (I n) = 1"
| "kind (F r) = 2"

fun cast :: "nat \<Rightarrow> cell \<Rightarrow> cell" where
  "cast k (U8 w) = (if k = 0 then U8 w else if k = 1 then I (int (unat w)) else F (astype_float (U8 w)))"
| "cast k (I n) = (if k \<le> 1 then I n else F (astype_float (I n)))"
| "cast k (F r) = F r"

fun nd_cells :: "nd \<Rightarrow> cell list" where
  "nd_cells (Cell c) = [c]"
| "nd_cells (Arr xs) = concat (map nd_cells xs)"

definition common_kind :: "cell list \<Rightarrow> nat" where
  "common_kind cs = fold max (map kind cs) 0"

text \<open>\<^verbatim>\<open>numpy.concatenate\<close> of two arrays, and of a list of arrays, along axis \<open>k\<close>.\<close>

fun nd_append :: "nat \<Rightarrow> nd \<Rightarrow> nd \<Rightarrow> nd" where
  "nd_append 0 (Arr xs) (Arr ys) = Arr (xs @ ys)"
| "nd_append (Suc k) (Arr xs) (Arr ys) = Arr (map (\<lambda>(x, y). nd_append k x y) (zip xs ys))"
| "nd_append k (Cell c) b = Cell c"
| "nd_append k (Arr xs) (Cell c) = Arr xs"

fun nd_concat :: "nat \<Rightarrow> nd list \<Rightarrow> nd" where
  "nd_concat k [] = Arr []"
| "nd_concat k [a] = a"
| "nd_concat k (a # b # rest) = nd_append k a (nd_concat k (b # rest))"

text \<open>
  \<^verbatim>\<open>numpy.concatenate\<close> raises unless the arrays have the axis and agree in every other
  dimension.
\<close>

definition joinable :: "nat \<Rightarrow> nd list \<Rightarrow> bool" where
  "joinable k as =
     list_all (\<lambda>a. has_shape (nd_shape a) a \<and> k < length (nd_shape a)
        \<and> (nd_shape a)[k := 0] = (nd_shape (hd as))[k := 0]) as"

text \<open>\<^verbatim>\<open>a[0]\<close>\<close>

fun nd_first :: "nd \<Rightarrow> error + nd" where
  "nd_first (Arr (x # xs)) = Inr x"
| "nd_first (Arr []) = Inl IndexError"
| "nd_first (Cell c) = Inl IndexError"

text \<open>The cells of an array of one dimension.\<close>

fun as_cell :: "nd \<Rightarrow> cell option" where
  "as_cell (Cell c) = Some c"
| "as_cell (Arr xs) = None"

fun cells_of :: "nd \<Rightarrow> cell list option" where
  "cells_of (Arr xs) = those (map as_cell xs)"
| "cells_of (Cell c) = None"

text \<open>The number that a cell stands for, by which values are ordered.\<close>

fun cell_key :: "cell \<Rightarrow> rat" where
  "cell_key (I n) = of_int n"
| "cell_key (F r) = r"
| "cell_key (U8 w) = of_nat (unat w)"

text \<open>\<^verbatim>\<open>numpy.lexsort\<close> with one key: the indices that sort the keys, stably.\<close>

definition argsort :: "rat list \<Rightarrow> nat list" where
  "argsort ks = map snd (sort_key fst (zip ks [0..<length ks]))"

subsection \<open>Datasets\<close>

fun index_of :: "'a \<Rightarrow> 'a list \<Rightarrow> nat" where
  "index_of x [] = 0"
| "index_of x (y # ys) = (if x = y then 0 else Suc (index_of x ys))"

definition var_names :: "dataset \<Rightarrow> string list" where
  "var_names ds = map fst (variables ds)"

text \<open>\<^verbatim>\<open>ds.dims\<close>: the names of the dimensions of the variables.\<close>

definition ds_dims :: "dataset \<Rightarrow> string list" where
  "ds_dims ds = remdups (concat (map (\<lambda>(k, v). dims v) (variables ds)))"

text \<open>The length of dimension \<open>d\<close> in a variable that has it.\<close>

definition var_len :: "string \<Rightarrow> variable \<Rightarrow> nat" where
  "var_len d v = nd_shape (vdata v) ! index_of d (dims v)"

text \<open>\<^verbatim>\<open>ds.dims.get(d, 1)\<close>\<close>

definition dim_len :: "string \<Rightarrow> dataset \<Rightarrow> nat" where
  "dim_len d ds =
     (case filter (\<lambda>(k, v). d \<in> set (dims v)) (variables ds) of
        [] \<Rightarrow> 1
      | (k, v) # _ \<Rightarrow> var_len d v)"

text \<open>\<^verbatim>\<open>ds.attrs[k] = v\<close> and \<^verbatim>\<open>if k in ds.attrs: del ds.attrs[k]\<close>\<close>

definition set_attr :: "string \<Rightarrow> attr \<Rightarrow> attrs \<Rightarrow> attrs" where
  "set_attr k v al = AList.update k v al"

definition del_attr_if_present :: "string \<Rightarrow> attrs \<Rightarrow> attrs" where
  "del_attr_if_present k al = (if k \<in> fst ` set al then AList.delete k al else al)"

text \<open>
  \<^verbatim>\<open>ds.swap_dims({old: new})\<close>: \<open>old\<close> must be a dimension and \<open>new\<close> a variable along
  \<open>old\<close> alone; every variable along \<open>old\<close> is then along \<open>new\<close>, and \<open>new\<close> is a
  coordinate.
\<close>

definition swap_dims :: "string \<Rightarrow> string \<Rightarrow> dataset \<Rightarrow> error + dataset" where
  "swap_dims old new ds =
     (if old \<notin> set (ds_dims ds) then Inl ValueError
      else case map_of (variables ds) new of
        None \<Rightarrow> Inl KeyError
      | Some v \<Rightarrow>
          if dims v \<noteq> [old] then Inl ValueError
          else Inr (ds\<lparr>variables :=
                        map (\<lambda>(k, v). (k, v\<lparr>dims := map (\<lambda>d. if d = old then new else d) (dims v)\<rparr>))
                          (variables ds),
                      coord_names := List.insert new (coord_names ds)\<rparr>))"

text \<open>
  \<^verbatim>\<open>ds.drop(names)\<close>: a new dataset without the variables named; a name that is not a
  variable raises a ValueError. The dataset \<open>ds\<close> itself is not changed.
\<close>

definition drop_vars :: "string list \<Rightarrow> dataset \<Rightarrow> error + dataset" where
  "drop_vars names ds =
     (if \<not> set names \<subseteq> set (var_names ds) then Inl ValueError
      else Inr (ds\<lparr>variables := filter (\<lambda>(k, v). k \<notin> set names) (variables ds),
                  coord_names := filter (\<lambda>k. k \<notin> set names) (coord_names ds)\<rparr>))"

text \<open>\<^verbatim>\<open>ds.isel(d=idx)\<close>: every variable along \<open>d\<close> is indexed along that axis.\<close>

definition isel_var :: "string \<Rightarrow> nat list \<Rightarrow> variable \<Rightarrow> variable" where
  "isel_var d idx v =
     (if d \<in> set (dims v) then v\<lparr>vdata := nd_take (index_of d (dims v)) idx (vdata v)\<rparr> else v)"

definition isel :: "string \<Rightarrow> nat list \<Rightarrow> dataset \<Rightarrow> dataset" where
  "isel d idx ds = ds\<lparr>variables := map (\<lambda>(k, v). (k, isel_var d idx v)) (variables ds)\<rparr>"

text \<open>
  \<^verbatim>\<open>ds.sortby(name)\<close>: the variable must exist and have one dimension; the dataset is
  indexed along that dimension by the order that sorts the variable, ascending and
  stable.
\<close>

definition sortby :: "string \<Rightarrow> dataset \<Rightarrow> error + dataset" where
  "sortby name ds =
     (case map_of (variables ds) name of
        None \<Rightarrow> Inl KeyError
      | Some v \<Rightarrow>
         (case dims v of
            [d] \<Rightarrow>
              (case cells_of (vdata v) of
                 None \<Rightarrow> Inl ValueError
               | Some cs \<Rightarrow> Inr (isel d (argsort (map cell_key cs)) ds))
          | _ \<Rightarrow> Inl ValueError))"

text \<open>The results of a list of calls, in order; the first exception ends them.\<close>

fun sequence :: "(error + 'a) list \<Rightarrow> error + 'a list" where
  "sequence [] = Inr []"
| "sequence (r # rs) = and_then r (\<lambda>x. and_then (sequence rs) (\<lambda>xs. Inr (x # xs)))"

text \<open>
  \<^verbatim>\<open>xr.concat(frames, d)\<close> with its defaults. An empty list raises a ValueError.

  Frames of one schema have the same variable names, each with the same dimensions and
  the same standing as a coordinate in every frame, and the same index coordinates but
  for \<open>d\<close>. For them the result is computed here. The variables joined are those along
  \<open>d\<close>, the variable \<open>d\<close>, every data variable, and every coordinate that is not equal
  in all frames; a variable that is joined and not along \<open>d\<close> is first repeated along a
  new leading axis \<open>d\<close>, as often as its frame is long. The other variables, the
  coordinate names and the global attributes are those of the first frame.

  On frames that are not of one schema \<^verbatim>\<open>xarray\<close> aligns the index coordinates, fills
  and broadcasts the variables, or raises, case by case: what it returns is a parameter,
  \<open>concat_mixed frames d\<close>. Of that result the model fixes the index coordinate \<open>d\<close>
  alone, which is left out of the alignment: where every frame has \<open>d\<close> as an index
  coordinate (a variable \<open>d\<close> of one dimension, along \<open>d\<close>), the coordinate \<open>d\<close> of
  the result is these coordinates one after the other, in the order of the frames and
  in their common type.
\<close>

definition var_equals :: "variable \<Rightarrow> variable \<Rightarrow> bool" where
  "var_equals a b = (dims a = dims b \<and> vdata a = vdata b)"

definition same_schema :: "string \<Rightarrow> dataset \<Rightarrow> dataset \<Rightarrow> bool" where
  "same_schema d a b =
     (set (var_names a) = set (var_names b)
      \<and> list_all (\<lambda>(k, v).
           case map_of (variables b) k of
             None \<Rightarrow> False
           | Some w \<Rightarrow> dims w = dims v
               \<and> (k \<in> set (coord_names a)) = (k \<in> set (coord_names b))
               \<and> (if dims v = [k] \<and> k \<noteq> d then vdata w = vdata v else True))
         (variables a))"

definition concat_over :: "string \<Rightarrow> dataset list \<Rightarrow> string \<Rightarrow> variable \<Rightarrow> bool" where
  "concat_over d frames k v =
     (d \<in> set (dims v) \<or> k = d
      \<or> (k \<notin> set (coord_names (hd frames)) \<and> k \<notin> set (ds_dims (hd frames)))
      \<or> list_ex (\<lambda>f. case map_of (variables f) k of None \<Rightarrow> True | Some w \<Rightarrow> \<not> var_equals v w)
           (tl frames))"

definition with_dim :: "string \<Rightarrow> nat \<Rightarrow> variable \<Rightarrow> variable" where
  "with_dim d n v =
     (if d \<in> set (dims v) then v
      else v\<lparr>dims := d # dims v, vdata := Arr (replicate n (vdata v))\<rparr>)"

definition concat_vars :: "string \<Rightarrow> nat list \<Rightarrow> variable list \<Rightarrow> error + variable" where
  "concat_vars d lens vs =
     (case map (\<lambda>(v, n). with_dim d n v) (zip vs lens) of
        [] \<Rightarrow> Inl ValueError
      | w # ws \<Rightarrow>
          if list_all (\<lambda>x. dims x = dims w) ws
             \<and> joinable (index_of d (dims w)) (map vdata (w # ws))
          then Inr \<lparr>dims = dims w,
                    vdata = nd_concat (index_of d (dims w))
                      (map (nd_map (cast (common_kind (concat (map (nd_cells \<circ> vdata) (w # ws))))))
                         (map vdata (w # ws))),
                    vattrs = vattrs w\<rparr>
          else Inl ValueError)"

text \<open>The variable \<open>k\<close> of every frame, joined along \<open>d\<close>.\<close>

definition join_var :: "string \<Rightarrow> dataset list \<Rightarrow> string \<Rightarrow> error + (string \<times> variable)" where
  "join_var d frames k =
     (case those (map (\<lambda>f. map_of (variables f) k) frames) of
        None \<Rightarrow> Inl KeyError
      | Some vs \<Rightarrow> and_then (concat_vars d (map (dim_len d) frames) vs) (\<lambda>w. Inr (k, w)))"

text \<open>The values of the index coordinate \<open>d\<close> of a dataset that has one.\<close>

definition index_cells :: "string \<Rightarrow> dataset \<Rightarrow> cell list option" where
  "index_cells d ds =
     (case map_of (variables ds) d of
        None \<Rightarrow> None
      | Some v \<Rightarrow> if dims v = [d] then cells_of (vdata v) else None)"

definition promoted :: "cell list \<Rightarrow> cell list" where
  "promoted cs = map (cast (common_kind cs)) cs"

definition join_index :: "string \<Rightarrow> dataset list \<Rightarrow> dataset \<Rightarrow> dataset" where
  "join_index d frames c =
     (case those (map (index_cells d) frames) of
        None \<Rightarrow> c
      | Some css \<Rightarrow>
          c\<lparr>variables :=
              AList.update d
                \<lparr>dims = [d], vdata = Arr (map Cell (promoted (concat css))),
                 vattrs = (case map_of (variables (hd frames)) d of None \<Rightarrow> [] | Some v \<Rightarrow> vattrs v)\<rparr>
                (variables c)\<rparr>)"

definition xr_concat ::
  "(dataset list \<Rightarrow> string \<Rightarrow> error + dataset) \<Rightarrow> dataset list \<Rightarrow> string \<Rightarrow> error + dataset"
where
  "xr_concat concat_mixed frames d =
     (case frames of
        [] \<Rightarrow> Inl ValueError
      | ds0 # rest \<Rightarrow>
          if list_all (same_schema d ds0) rest then
            and_then
              (sequence
                (map (\<lambda>(k, v). join_var d frames k)
                   (filter (\<lambda>(k, v). concat_over d frames k v) (variables ds0))))
              (\<lambda>joined.
                Inr \<lparr>variables =
                       filter (\<lambda>(k, v). \<not> concat_over d frames k v) (variables ds0) @ joined,
                     coord_names = coord_names ds0,
                     attrs = attrs ds0\<rparr>)
          else and_then (concat_mixed frames d) (\<lambda>c. Inr (join_index d frames c)))"

section \<open>The file normalizer: \<^verbatim>\<open>process_file\<close>\<close>

definition dods_url :: string where
  "dods_url = ''https://opendap.oceanobservatories.org/thredds/dodsC/''"

text \<open>The pattern \<^verbatim>\<open>catalog.html\?dataset=\<close>: its \<^verbatim>\<open>.\<close> is any character.\<close>

definition catalog_pattern :: "atom list" where
  "catalog_pattern = map Chr ''catalog'' @ [Dot] @ map Chr ''html?dataset=''"

definition bookkeeping :: "string list" where
  "bookkeeping =
     [''obs'', ''id'', ''driver_timestamp'', ''ingestion_timestamp'', ''port_timestamp'',
      ''preferred_timestamp'']"

definition stale_keys :: "string list" where
  "stale_keys =
     [''DODS.strlen'', ''DODS.dimName'', ''DODS_EXTRA.Unlimited_Dimension'', ''_NCProperties'',
      ''feature_Type'']"

text \<open>The assignments to \<^verbatim>\<open>ds.attrs\<close> of \<^verbatim>\<open>process_file\<close>, in the order of the source.\<close>

definition file_attrs :: "attrs \<Rightarrow> attrs" where
  "file_attrs al =
     (set_attr ''creator_email'' (AStr ''ooice.platforms@gmail.com'')
      (set_attr ''publisher_email'' (AStr ''ooice.platforms@gmail.com'')
       (set_attr ''comment''
          (AStr ''Data collected from the OOI M2M API and reworked for use in locally stored NetCDF files.'')
        (set_attr ''acknowledgement'' (AStr ''National Science Foundation'')
         (fold del_attr_if_present stale_keys
           (set_attr ''featureType'' (AStr ''timeSeries'')
             (set_attr ''cdm_data_type'' (AStr ''Station'') al)))))))"

text \<open>
  \<^verbatim>\<open>process_file\<close>. \<open>open_dataset url\<close> is the dataset that \<^verbatim>\<open>xr.open_dataset\<close> loads
  from \<open>url\<close>, or the exception it raises. A catalog entry without \<^verbatim>\<open>href\<close> is
  \<^verbatim>\<open>None\<close>, on which \<^verbatim>\<open>re.sub\<close> raises a TypeError.
\<close>

definition process_file :: "(string \<Rightarrow> error + dataset) \<Rightarrow> string option \<Rightarrow> error + dataset" where
  "process_file open_dataset catalog_file =
     (case catalog_file of
        None \<Rightarrow> Inl TypeError
      | Some f \<Rightarrow>
          and_then (open_dataset (re_sub catalog_pattern dods_url f)) (\<lambda>ds.
          and_then (swap_dims ''obs'' ''time'' ds) (\<lambda>ds.
          and_then (drop_vars bookkeeping ds) (\<lambda>ds.
          and_then (sortby ''time'' ds) (\<lambda>ds.
          Inr (ds\<lparr>attrs := file_attrs (attrs ds)\<rparr>))))))"

section \<open>The dataset merger: \<^verbatim>\<open>m2m_collect\<close>\<close>

text \<open>
  \<^verbatim>\<open>m2m_collect\<close>. The environment is given by the regex library, the catalog pages,
  the datasets behind the URLs, and what \<^verbatim>\<open>xr.concat\<close> returns on frames that are not
  of one schema.
\<close>

definition m2m_collect ::
  "regex_library \<Rightarrow> (string \<Rightarrow> anchor list) \<Rightarrow> (string \<Rightarrow> error + dataset)
     \<Rightarrow> (dataset list \<Rightarrow> string \<Rightarrow> error + dataset) \<Rightarrow> json \<Rightarrow> string \<Rightarrow> error + dataset"
where
  "m2m_collect re_compile pages open_dataset concat_mixed data tag =
     and_then (getitem_str data ''allURLs'') (\<lambda>urls.
     and_then (getitem_nat urls 0) (\<lambda>u.
       case u of
         JStr url \<Rightarrow>
           and_then (list_files re_compile pages url tag) (\<lambda>files.
           and_then (sequence (map (process_file open_dataset) files)) (\<lambda>frames.
           and_then (xr_concat concat_mixed frames ''time'') (\<lambda>m2m.
           sortby ''time'' m2m)))
       | _ \<Rightarrow> Inl TypeError))"

section \<open>The time conversion: \<^verbatim>\<open>dt64_epoch\<close>\<close>

text \<open>
  \<^verbatim>\<open>dt64_epoch\<close>: \<^verbatim>\<open>dt64.values.astype(float) / 10.0 ** 9\<close>, value by value. The divisor
  is the float \<open>10 ^ 9\<close>, and the quotient is rounded to a float.
\<close>

definition epoch_seconds :: "cell \<Rightarrow> cell" where
  "epoch_seconds c = F (fl64 (astype_float c / 10 ^ 9))"

definition dt64_epoch :: "nd \<Rightarrow> nd" where
  "dt64_epoch a = nd_map epoch_seconds a"

section \<open>Strings\<close>

text \<open>\<^verbatim>\<open>str.upper\<close> and \<^verbatim>\<open>str.title\<close> on ASCII text.\<close>

definition is_lower :: "char \<Rightarrow> bool" where
  "is_lower c = (97 \<le> (of_char c :: nat) \<and> (of_char c :: nat) \<le> 122)"

definition is_upper :: "char \<Rightarrow> bool" where
  "is_upper c = (65 \<le> (of_char c :: nat) \<and> (of_char c :: nat) \<le> 90)"

definition to_upper :: "char \<Rightarrow> char" where
  "to_upper c = (if is_lower c then char_of ((of_char c :: nat) - 32) else c)"

definition to_lower :: "char \<Rightarrow> char" where
  "to_lower c = (if is_upper c then char_of ((of_char c :: nat) + 32) else c)"

definition upper :: "string \<Rightarrow> string" where
  "upper s = map to_upper s"

text \<open>
  \<^verbatim>\<open>str.title\<close>: a letter that follows a letter is made lower case, any other letter
  upper case. The flag says that the character before was a letter.
\<close>

fun title_from :: "bool \<Rightarrow> string \<Rightarrow> string" where
  "title_from prev [] = []"
| "title_from prev (c # cs) =
     (if is_lower c \<or> is_upper c
      then (if prev then to_lower c else to_upper c) # title_from True cs
      else c # title_from False cs)"

definition title :: "string \<Rightarrow> string" where
  "title s = title_from False s"

(*PROPERTIES*)

section \<open>Properties of the export request\<close>

text \<open>
  Test data: a submission that is answered with a descriptor holding a catalog URL and a
  status URL.
\<close>

definition descriptor0 :: json where
  "descriptor0 = JObj [(''allURLs'', JList [JStr ''https://thredds/catalog.html'', JStr ''https://async/job'']),
     (''requestUUID'', JStr ''0'')]"

definition submit0 :: "string \<Rightarrow> response" where
  "submit0 url = \<lparr>status_code = 200, json_body = Some descriptor0, text_body = []\<rparr>"

text \<open>A status endpoint that answers 404 until check number \<open>k\<close> (counted from 1) and 200 from then on.\<close>

definition ready_at :: "nat \<Rightarrow> string \<Rightarrow> nat \<Rightarrow> nat" where
  "ready_at k url i = (if Suc i < k then 404 else 200)"

definition never_ready :: "string \<Rightarrow> nat \<Rightarrow> nat" where
  "never_ready url i = 404"

text \<open>
  C6. With neither start nor stop supplied the query string is
  \<^verbatim>\<open>?beginDT=0&format=application/netcdf\<close>: it contains \<^verbatim>\<open>beginDT=0\<close> and no \<^verbatim>\<open>endDT\<close>.
  A supplied start (stop) is carried as the value of \<^verbatim>\<open>beginDT\<close> (\<^verbatim>\<open>endDT\<close>); the test
  \<^verbatim>\<open>if start:\<close> counts an empty string as not supplied. The query string ends the URL
  that is requested.
\<close>

theorem options_query_string:
  "options None None = ''?beginDT=0&format=application/netcdf''
   \<and> sublist ''beginDT=0'' (options None None)
   \<and> \<not> sublist ''endDT'' (options None None)
   \<and> (truthy (Some s) \<longrightarrow>
        options (Some s) None = ''?beginDT='' @ s @ ''&format=application/netcdf'')
   \<and> (truthy (Some t) \<longrightarrow>
        options None (Some t) = ''?beginDT=0&endDT='' @ t @ ''&format=application/netcdf'')
   \<and> (truthy (Some s) \<and> truthy (Some t) \<longrightarrow>
        options (Some s) (Some t) = ''?beginDT='' @ s @ ''&endDT='' @ t @ ''&format=application/netcdf'')
   \<and> options (Some []) (Some []) = options None None
   \<and> suffix (options start stop) (request_url site node sensor method stream start stop)"
proof -
  have a: "options None None = ''?beginDT=0&format=application/netcdf''"
    by (simp add: options_def begin_date_def end_date_def)
  have b: "sublist ''beginDT=0'' ''?beginDT=0&format=application/netcdf''"
    by code_simp
  have c: "\<not> sublist ''endDT'' ''?beginDT=0&format=application/netcdf''"
    by code_simp
  have d: "suffix (options start stop) (request_url site node sensor method stream start stop)"
    unfolding request_url_def suffix_def by (metis append.assoc)
  show ?thesis
    using b c d unfolding a by (simp add: options_def begin_date_def end_date_def)
qed

theorem options_query_string_witness:
  "truthy (Some ''2019-01-01T00:00:00.000Z'') \<and> truthy (Some ''2019-02-01T00:00:00.000Z'')
   \<and> options (Some ''2019-01-01T00:00:00.000Z'') (Some ''2019-02-01T00:00:00.000Z'')
     = ''?beginDT=2019-01-01T00:00:00.000Z&endDT=2019-02-01T00:00:00.000Z&format=application/netcdf''
   \<and> options (Some ''2019-01-01T00:00:00.000Z'') None
     = ''?beginDT=2019-01-01T00:00:00.000Z&format=application/netcdf''"
  using options_query_string [of "''2019-01-01T00:00:00.000Z''" "''2019-02-01T00:00:00.000Z''"]
  by simp

section \<open>Properties of the completion poller\<close>

lemma poll_loop_fail_prefix:
  "\<forall>i\<in>set xs. status i \<noteq> codes_ok \<Longrightarrow>
   poll_loop status (xs @ ys) st =
   poll_loop status ys
     (st\<lparr>checks := checks st + length xs, bar_n := bar_n st + length xs,
         sleeps := sleeps st @ replicate (length xs) 3,
         elapsed := (if xs = [] then elapsed st else Some (of_nat (last xs * 3) / 60))\<rparr>)"
proof (induction xs arbitrary: st)
  case Nil
  then show ?case by simp
next
  case (Cons i xs)
  then show ?case
    by (simp add: Let_def replicate_append_same)
qed

lemma upt_split_at: "j < n \<Longrightarrow> [0..<n] = [0..<j] @ j # [Suc j..<n]"
  by (metis less_imp_add_positive upt_add_eq_append upt_conv_Cons zero_le)

text \<open>
  The loop when the first success is in iteration \<open>j\<close>: \<open>j + 1\<close> checks and \<open>j\<close> sleeps
  of 3 seconds, and the report of completion fails on the unbound \<^verbatim>\<open>elapsed\<close> when
  \<open>j = 0\<close>.
\<close>

lemma poll_loop_first_success:
  assumes j: "j < 200" and ok: "status j = codes_ok"
    and before: "\<forall>i<j. status i \<noteq> codes_ok"
  shows "poll_loop status [0..<200] poll_init =
    (\<lparr>checks = Suc j, sleeps = replicate j 3, bar_n = 200,
       elapsed = (if j = 0 then None else Some (of_nat ((j - 1) * 3) / 60)),
       printed = (j \<noteq> 0)\<rparr>,
     if j = 0 then Inl UnboundLocalError else Inr ())"
proof -
  have pre: "\<forall>i\<in>set [0..<j]. status i \<noteq> codes_ok"
    using before by simp
  have last: "j \<noteq> 0 \<Longrightarrow> last [0..<j] = j - 1"
    by (cases j) simp_all
  show ?thesis
    unfolding upt_split_at [OF j] poll_loop_fail_prefix [OF pre]
    using ok last by (simp add: poll_init_def Let_def)
qed

lemma poll_loop_exhausted:
  assumes never: "\<forall>i<200. status i \<noteq> codes_ok"
  shows "poll_loop status [0..<200] poll_init =
    (\<lparr>checks = 200, sleeps = replicate 200 3, bar_n = 200,
       elapsed = Some (of_nat (199 * 3) / 60), printed = False\<rparr>, Inr ())"
proof -
  have pre: "\<forall>i\<in>set [0..<200]. status i \<noteq> codes_ok"
    using never by simp
  have "poll_loop status ([0..<200] @ []) poll_init =
     (\<lparr>checks = 200, sleeps = replicate 200 3, bar_n = 200,
       elapsed = Some (of_nat (199 * 3) / 60), printed = False\<rparr>, Inr ())"
    unfolding poll_loop_fail_prefix [OF pre]
    by (simp add: poll_init_def)
  then show ?thesis by simp
qed

text \<open>The submission accepted, with a descriptor whose second URL is a string.\<close>

definition accepted :: "(string \<Rightarrow> response) \<Rightarrow> string \<Rightarrow> json \<Rightarrow> string \<Rightarrow> bool" where
  "accepted submit url data check_complete =
     (status_code (submit url) = codes_ok \<and> json_body (submit url) = Some data
      \<and> (\<exists>urls u. getitem_str data ''allURLs'' = Inr urls \<and> getitem_nat urls 1 = Inr u
            \<and> add_str u ''/status.txt'' = Inr check_complete))"

lemma m2m_request_accepted:
  assumes "accepted submit (request_url site node sensor method stream start stop) data cc"
  shows "m2m_request submit status site node sensor method stream start stop =
    (case poll_loop (status cc) [0..<200] poll_init of
       (st, Inl e) \<Rightarrow> (st, Inl e)
     | (st, Inr u) \<Rightarrow> (st, Inr (Some data)))"
  using assms
  by (auto simp: accepted_def m2m_request_def Let_def response_json_def)

lemma accepted_submit0: "accepted submit0 url descriptor0 ''https://async/job/status.txt''"
  by (simp add: accepted_def submit0_def descriptor0_def codes_ok_def)


text \<open>
  C4 (the claim as stated fails). A status endpoint that never answers with success
  exhausts the 200 checks, and \<^verbatim>\<open>m2m_request\<close> then returns the descriptor as it does
  after a success: the loop has no \<^verbatim>\<open>else\<close> branch and nothing is raised.
\<close>

theorem m2m_request_exhausted_counterexample:
  "m2m_request submit0 never_ready ''CE01ISSM'' ''SBD17'' ''06-CTDBPC000'' ''telemetered''
     ''ctdbp_cdef_dcl_instrument'' None None =
   (\<lparr>checks = 200, sleeps = replicate 200 3, bar_n = 200,
      elapsed = Some (of_nat (199 * 3) / 60), printed = False\<rparr>, Inr (Some descriptor0))"
proof -
  have "\<forall>i<200. never_ready ''https://async/job/status.txt'' i \<noteq> codes_ok"
    by (simp add: never_ready_def codes_ok_def)
  then show ?thesis
    by (simp only: m2m_request_accepted [OF accepted_submit0] poll_loop_exhausted
        prod.case sum.case)
qed

text \<open>
  C4 (amended). When none of the 200 status checks is answered with success, the poller
  makes exactly 200 checks, sleeps 3 seconds after each, reports nothing and raises
  nothing, and \<^verbatim>\<open>m2m_request\<close> returns the descriptor it received from the submission.
\<close>

theorem m2m_request_exhausted:
  assumes "accepted submit (request_url site node sensor method stream start stop) data cc"
    and "\<forall>i<200. status cc i \<noteq> codes_ok"
  shows "m2m_request submit status site node sensor method stream start stop =
    (\<lparr>checks = 200, sleeps = replicate 200 3, bar_n = 200,
       elapsed = Some (of_nat (199 * 3) / 60), printed = False\<rparr>, Inr (Some data))"
  by (simp only: m2m_request_accepted [OF assms(1)] poll_loop_exhausted [OF assms(2)]
      prod.case sum.case)

theorem m2m_request_exhausted_witness:
  "accepted submit0 (request_url ''CE01ISSM'' ''SBD17'' ''06-CTDBPC000'' ''telemetered''
     ''ctdbp_cdef_dcl_instrument'' None None) descriptor0 ''https://async/job/status.txt''
   \<and> never_ready ''https://async/job/status.txt'' 199 \<noteq> codes_ok
   \<and> snd (m2m_request submit0 never_ready ''CE01ISSM'' ''SBD17'' ''06-CTDBPC000'' ''telemetered''
     ''ctdbp_cdef_dcl_instrument'' None None) = Inr (Some descriptor0)"
proof -
  have n: "\<forall>i<200. never_ready ''https://async/job/status.txt'' i \<noteq> codes_ok"
    by (simp add: never_ready_def codes_ok_def)
  show ?thesis
    using n accepted_submit0
      m2m_request_exhausted
        [of submit0 "''CE01ISSM''" "''SBD17''" "''06-CTDBPC000''" "''telemetered''"
          "''ctdbp_cdef_dcl_instrument''" None None descriptor0
          "''https://async/job/status.txt''" "never_ready"]
    by simp
qed

text \<open>
  C5. When the first success is the answer to check number \<open>k\<close>, with \<open>1 \<le> k \<le> 200\<close>,
  the poller makes exactly \<open>k\<close> checks and sleeps 3 seconds after each of the \<open>k - 1\<close>
  checks without success. For \<open>k \<ge> 2\<close> it reports completion and the descriptor is
  returned; for \<open>k = 1\<close> the report reads the unbound variable \<^verbatim>\<open>elapsed\<close> and the call
  raises instead of reporting ready.
\<close>

theorem m2m_request_ready_at_check:
  assumes acc: "accepted submit (request_url site node sensor method stream start stop) data cc"
    and k: "1 \<le> k" "k \<le> 200"
    and ok: "status cc (k - 1) = codes_ok"
    and before: "\<forall>i<k - 1. status cc i \<noteq> codes_ok"
  shows "m2m_request submit status site node sensor method stream start stop =
    (\<lparr>checks = k, sleeps = replicate (k - 1) 3, bar_n = 200,
       elapsed = (if k = 1 then None else Some (of_nat ((k - 2) * 3) / 60)),
       printed = (k \<noteq> 1)\<rparr>,
     if k = 1 then Inl UnboundLocalError else Inr (Some data))"
proof -
  from k have j: "k - 1 < 200" by simp
  have eq: "Suc (k - 1) = k" "(k - 1 = 0) = (k = 1)" "k - 1 - 1 = k - 2"
    using k by auto
  show ?thesis
    unfolding m2m_request_accepted [OF acc] poll_loop_first_success [OF j ok before] eq
    by simp
qed

theorem m2m_request_ready_at_check_witness:
  "m2m_request submit0 (ready_at 1) ''CE01ISSM'' ''SBD17'' ''06-CTDBPC000'' ''telemetered''
     ''ctdbp_cdef_dcl_instrument'' None None =
   (\<lparr>checks = 1, sleeps = [], bar_n = 200, elapsed = None, printed = False\<rparr>,
    Inl UnboundLocalError)
   \<and> m2m_request submit0 (ready_at 5) ''CE01ISSM'' ''SBD17'' ''06-CTDBPC000'' ''telemetered''
     ''ctdbp_cdef_dcl_instrument'' None None =
   (\<lparr>checks = 5, sleeps = [3, 3, 3, 3], bar_n = 200, elapsed = Some (3 / 20), printed = True\<rparr>,
    Inr (Some descriptor0))"
proof -
  have one: "ready_at 1 ''https://async/job/status.txt'' (1 - 1) = codes_ok"
    "\<forall>i<1 - 1. ready_at 1 ''https://async/job/status.txt'' i \<noteq> codes_ok"
    by (simp_all add: ready_at_def codes_ok_def)
  have five: "ready_at 5 ''https://async/job/status.txt'' (5 - 1) = codes_ok"
    "\<forall>i<5 - 1. ready_at 5 ''https://async/job/status.txt'' i \<noteq> codes_ok"
    by (simp_all add: ready_at_def codes_ok_def)
  have r4: "replicate 4 (3::nat) = [3, 3, 3, 3]"
    by (simp add: numeral_eq_Suc)
  show ?thesis
    using one five accepted_submit0
      m2m_request_ready_at_check
        [of submit0 "''CE01ISSM''" "''SBD17''" "''06-CTDBPC000''" "''telemetered''"
          "''ctdbp_cdef_dcl_instrument''" None None descriptor0
          "''https://async/job/status.txt''" 1 "ready_at 1"]
      m2m_request_ready_at_check
        [of submit0 "''CE01ISSM''" "''SBD17''" "''06-CTDBPC000''" "''telemetered''"
          "''ctdbp_cdef_dcl_instrument''" None None descriptor0
          "''https://async/job/status.txt''" 5 "ready_at 5"]
    by (simp add: r4)
qed

text \<open>
  C10 (the code fails the claim). When the first status check is answered with success,
  \<^verbatim>\<open>elapsed\<close> has not been assigned: after one check and no sleep, the completion report
  raises \<^verbatim>\<open>UnboundLocalError\<close> and no descriptor is returned.
\<close>

theorem m2m_request_ready_at_first_check:
  assumes acc: "accepted submit (request_url site node sensor method stream start stop) data cc"
    and ok: "status cc 0 = codes_ok"
  shows "m2m_request submit status site node sensor method stream start stop =
    (\<lparr>checks = 1, sleeps = [], bar_n = 200, elapsed = None, printed = False\<rparr>,
     Inl UnboundLocalError)"
proof -
  have j: "(0::nat) < 200" by simp
  have before: "\<forall>i<0. status cc i \<noteq> codes_ok" by simp
  show ?thesis
    unfolding m2m_request_accepted [OF acc] poll_loop_first_success [OF j ok before]
    by simp
qed

theorem m2m_request_ready_at_first_check_witness:
  "accepted submit0 (request_url ''CE01ISSM'' ''SBD17'' ''06-CTDBPC000'' ''telemetered''
     ''ctdbp_cdef_dcl_instrument'' None None) descriptor0 ''https://async/job/status.txt''
   \<and> ready_at 1 ''https://async/job/status.txt'' 0 = codes_ok
   \<and> snd (m2m_request submit0 (ready_at 1) ''CE01ISSM'' ''SBD17'' ''06-CTDBPC000'' ''telemetered''
     ''ctdbp_cdef_dcl_instrument'' None None) = Inl UnboundLocalError"
proof -
  have ok: "ready_at 1 ''https://async/job/status.txt'' 0 = codes_ok"
    by (simp add: ready_at_def codes_ok_def)
  show ?thesis
    using ok accepted_submit0
      m2m_request_ready_at_first_check
        [of submit0 "''CE01ISSM''" "''SBD17''" "''06-CTDBPC000''" "''telemetered''"
          "''ctdbp_cdef_dcl_instrument''" None None descriptor0
          "''https://async/job/status.txt''" "ready_at 1"]
    by simp
qed


section \<open>Properties of the catalog collector\<close>

text \<open>The catalog page of the scenario: three links, each with its name as link text.\<close>

definition catalog0 :: "string \<Rightarrow> anchor list" where
  "catalog0 url =
     [\<lparr>href = Some ''data_20200101.nc'', link_text = Some ''data_20200101.nc''\<rparr>,
      \<lparr>href = Some ''data_20200101.nc.md5'', link_text = Some ''data_20200101.nc.md5''\<rparr>,
      \<lparr>href = Some ''readme.txt'', link_text = Some ''readme.txt''\<rparr>]"

text \<open>
  A catalog page with a link that has no string of its own, such as a link around an
  image.
\<close>

definition catalog1 :: "string \<Rightarrow> anchor list" where
  "catalog1 url =
     [\<lparr>href = Some ''data_20200101.nc'', link_text = Some ''data_20200101.nc''\<rparr>,
      \<lparr>href = Some ''index.html'', link_text = None\<rparr>]"

text \<open>The tag \<^verbatim>\<open>\.nc$\<close>, and the pattern that it is: a dot, \<open>n\<close>, \<open>c\<close>, and the end.\<close>

definition nc_tag :: string where
  "nc_tag = CHR 0x5C # ''.nc$''"

definition nc_pattern :: pattern where
  "nc_pattern = [One (Chr CHR ''.''), One (Chr CHR ''n''), One (Chr CHR ''c''), Eol]"

text \<open>
  The regex library of the examples, given for the two tags that they use (the empty
  tag is the empty pattern); no other tag is compiled in them.
\<close>

definition re0 :: regex_library where
  "re0 tag =
     (if tag = [] then Some (re_search [])
      else if tag = nc_tag then Some (re_search nc_pattern)
      else None)"

lemma re_search_empty: "re_search [] t"
  by (simp add: re_search_def)

lemma text_matches_iff: "text_matches search = (\<lambda>a. \<exists>t. link_text a = Some t \<and> search t)"
  by (auto simp: text_matches_def fun_eq_iff split: option.splits)

text \<open>
  Against C7 as it is worded: with the empty tag, a link without a string of its own
  is not returned, so not all links are.
\<close>

theorem list_files_matching_counterexample:
  "list_files re0 catalog1 ''https://thredds/catalog.html'' [] = Inr [Some ''data_20200101.nc'']
   \<and> map href (catalog1 ''https://thredds/catalog.html'')
       = [Some ''data_20200101.nc'', Some ''index.html'']"
  by (simp add: list_files_def re0_def catalog1_def text_matches_def re_search_empty)

text \<open>
  C7, corrected. Whatever the regex library makes of the tag: where the tag compiles,
  \<^verbatim>\<open>list_files\<close> returns the \<^verbatim>\<open>href\<close> of exactly the anchors that have a link text in
  which the compiled pattern finds a match, in page order, and where \<^verbatim>\<open>re.compile\<close>
  raises, so does \<^verbatim>\<open>list_files\<close>. A tag that finds a match in every string, as the
  empty tag does, returns every link that has a link text. On the page with the links
  \<^verbatim>\<open>data_20200101.nc\<close>, \<^verbatim>\<open>data_20200101.nc.md5\<close> and \<^verbatim>\<open>readme.txt\<close> the tag \<^verbatim>\<open>\.nc$\<close>
  returns \<^verbatim>\<open>data_20200101.nc\<close> alone.
\<close>

theorem list_files_matching:
  "(re_compile tag = Some search \<longrightarrow>
      list_files re_compile pages url tag =
        Inr (map href (filter (\<lambda>a. \<exists>t. link_text a = Some t \<and> search t) (pages url))))
   \<and> (re_compile tag = None \<longrightarrow> list_files re_compile pages url tag = Inl RegexError)
   \<and> (re_compile tag = Some search \<and> (\<forall>t. search t) \<longrightarrow>
        list_files re_compile pages url tag =
          Inr (map href (filter (\<lambda>a. link_text a \<noteq> None) (pages url))))
   \<and> (re_compile [] = Some (re_search []) \<longrightarrow>
        list_files re_compile pages url [] =
          Inr (map href (filter (\<lambda>a. link_text a \<noteq> None) (pages url))))
   \<and> (re_compile nc_tag = Some (re_search nc_pattern) \<longrightarrow>
        list_files re_compile catalog0 url nc_tag = Inr [Some ''data_20200101.nc''])"
proof -
  have a: "re_compile tag = Some search \<longrightarrow>
      list_files re_compile pages url tag =
        Inr (map href (filter (\<lambda>a. \<exists>t. link_text a = Some t \<and> search t) (pages url)))"
    by (simp add: list_files_def text_matches_iff)
  have b: "re_compile tag = None \<longrightarrow> list_files re_compile pages url tag = Inl RegexError"
    by (simp add: list_files_def)
  have c: "re_compile tag = Some search \<and> (\<forall>t. search t) \<longrightarrow>
        list_files re_compile pages url tag =
          Inr (map href (filter (\<lambda>a. link_text a \<noteq> None) (pages url)))" for tag search
    by (simp add: list_files_def text_matches_iff)
  have d: "re_compile nc_tag = Some (re_search nc_pattern) \<longrightarrow>
        list_files re_compile catalog0 url nc_tag = Inr [Some ''data_20200101.nc'']"
    by (simp add: list_files_def catalog0_def text_matches_def re_search_def nc_pattern_def
        newline_def)
  from c [of "[]" "re_search []"]
  have e: "re_compile [] = Some (re_search []) \<longrightarrow>
        list_files re_compile pages url [] =
          Inr (map href (filter (\<lambda>a. link_text a \<noteq> None) (pages url)))"
    by (simp add: re_search_empty)
  show ?thesis
    using a b c [of tag search] d e by blast
qed

theorem list_files_matching_witness:
  "list_files re0 catalog0 ''https://thredds/catalog.html'' [] =
     Inr [Some ''data_20200101.nc'', Some ''data_20200101.nc.md5'', Some ''readme.txt'']
   \<and> list_files re0 catalog0 ''https://thredds/catalog.html'' nc_tag = Inr [Some ''data_20200101.nc'']
   \<and> list_files re0 catalog1 ''https://thredds/catalog.html'' nc_tag = Inr [Some ''data_20200101.nc'']"
proof -
  have r: "re0 [] = Some (re_search [])" "re0 nc_tag = Some (re_search nc_pattern)"
    by (simp_all add: re0_def nc_tag_def)
  have t: "\<forall>t. re_search [] t"
    by (simp add: re_search_empty)
  have n: "filter (\<lambda>a. \<exists>t. link_text a = Some t \<and> re_search nc_pattern t)
             (catalog1 ''https://thredds/catalog.html'')
           = [\<lparr>href = Some ''data_20200101.nc'', link_text = Some ''data_20200101.nc''\<rparr>]"
    by (simp add: catalog1_def re_search_def nc_pattern_def newline_def)
  from list_files_matching [of re0 "[]" "re_search []" catalog0 "''https://thredds/catalog.html''"]
    list_files_matching [of re0 nc_tag "re_search nc_pattern" catalog1 "''https://thredds/catalog.html''"]
  show ?thesis
    using r t n by (simp add: catalog0_def)
qed


section \<open>Test data: two files of an export\<close>

definition arr1 :: "cell list \<Rightarrow> nd" where
  "arr1 cs = Arr (map Cell cs)"

definition obs_var :: "cell list \<Rightarrow> variable" where
  "obs_var cs = \<lparr>dims = [''obs''], vdata = arr1 cs, vattrs = []\<rparr>"

text \<open>A file as the server writes it, with observation times \<open>ts\<close> and temperatures \<open>temps\<close>.\<close>

definition raw_file :: "int list \<Rightarrow> int list \<Rightarrow> dataset" where
  "raw_file ts temps =
     \<lparr>variables =
        [(''obs'', obs_var (map (I \<circ> int) [0..<length ts])),
         (''time'', obs_var (map I ts)),
         (''id'', obs_var (map (I \<circ> int) [0..<length ts])),
         (''driver_timestamp'', obs_var (map I ts)),
         (''ingestion_timestamp'', obs_var (map I ts)),
         (''port_timestamp'', obs_var (map I ts)),
         (''preferred_timestamp'', obs_var (map I ts)),
         (''temperature'', obs_var (map I temps))],
      coord_names = [''obs''],
      attrs = [(''subsite'', AStr ''ce01issm''), (''feature_Type'', AStr ''point'')]\<rparr>"

text \<open>Two files with the overlapping time ranges \<open>[0, 5]\<close> and \<open>[3, 8]\<close>, neither in time order.\<close>

definition open0 :: "string \<Rightarrow> error + dataset" where
  "open0 url =
     (if url = dods_url @ ''a.nc'' then Inr (raw_file [5, 0, 3] [15, 10, 13])
      else if url = dods_url @ ''b.nc'' then Inr (raw_file [3, 8, 6] [23, 28, 26])
      else Inl ValueError)"

definition pages0 :: "string \<Rightarrow> anchor list" where
  "pages0 url =
     [\<lparr>href = Some ''catalog.html?dataset=a.nc'', link_text = Some ''a.nc''\<rparr>,
      \<lparr>href = Some ''catalog.html?dataset=a.nc.md5'', link_text = Some ''a.nc.md5''\<rparr>,
      \<lparr>href = Some ''catalog.html?dataset=b.nc'', link_text = Some ''b.nc''\<rparr>]"

text \<open>What is expected of a processed file and of the merged dataset.\<close>

definition time_var :: "cell list \<Rightarrow> variable" where
  "time_var cs = \<lparr>dims = [''time''], vdata = arr1 cs, vattrs = []\<rparr>"

definition frame :: "int list \<Rightarrow> int list \<Rightarrow> dataset" where
  "frame ts temps =
     \<lparr>variables = [(''time'', time_var (map I ts)), (''temperature'', time_var (map I temps))],
      coord_names = [''time''],
      attrs = file_attrs [(''subsite'', AStr ''ce01issm''), (''feature_Type'', AStr ''point'')]\<rparr>"

lemma process_file_a:
  "process_file open0 (Some ''catalog.html?dataset=a.nc'') = Inr (frame [0, 3, 5] [10, 13, 15])"
  by code_simp

lemma process_file_b:
  "process_file open0 (Some ''catalog.html?dataset=b.nc'') = Inr (frame [3, 6, 8] [23, 26, 28])"
  by code_simp

text \<open>
  The files of the examples are of one schema, so that \<^verbatim>\<open>xr.concat\<close> is not asked
  for frames of mixed schema; \<open>concat0\<close> stands for the branch that is not taken.
\<close>

definition concat0 :: "dataset list \<Rightarrow> string \<Rightarrow> error + dataset" where
  "concat0 frames d = Inl ValueError"

lemma m2m_collect_ab:
  "m2m_collect re0 pages0 open0 concat0 descriptor0 nc_tag =
     Inr (frame [0, 3, 3, 5, 6, 8] [10, 13, 23, 15, 26, 28])"
  by code_simp

section \<open>Properties of the dataset operations\<close>

lemma and_then_Inr: "and_then r f = Inr y \<longleftrightarrow> (\<exists>x. r = Inr x \<and> f x = Inr y)"
  by (cases r) (simp_all add: and_then_def)

lemma map_of_map_vars:
  "map_of (map (\<lambda>(k, v). (k, f v)) xs) k = map_option f (map_of xs k)"
  by (induction xs) auto

lemma map_of_filter_keys:
  "map_of (filter (\<lambda>(k, v). P k) xs) k = (if P k then map_of xs k else None)"
  by (induction xs) auto

lemma swap_dims_Inr:
  assumes "swap_dims old new ds = Inr ds'"
  shows "variables ds' =
           map (\<lambda>(k, v). (k, v\<lparr>dims := map (\<lambda>d. if d = old then new else d) (dims v)\<rparr>)) (variables ds)"
    and "coord_names ds' = List.insert new (coord_names ds)"
    and "attrs ds' = attrs ds"
    and "\<exists>v. map_of (variables ds) new = Some v \<and> dims v = [old]"
  using assms by (auto simp: swap_dims_def split: if_splits option.splits)

lemma drop_vars_Inr:
  assumes "drop_vars names ds = Inr ds'"
  shows "variables ds' = filter (\<lambda>(k, v). k \<notin> set names) (variables ds)"
    and "coord_names ds' = filter (\<lambda>k. k \<notin> set names) (coord_names ds)"
    and "attrs ds' = attrs ds"
    and "set names \<subseteq> set (var_names ds)"
  using assms by (auto simp: drop_vars_def split: if_splits)

lemma sortby_Inr:
  assumes "sortby name ds = Inr ds'"
  shows "\<exists>v d cs. map_of (variables ds) name = Some v \<and> dims v = [d]
           \<and> cells_of (vdata v) = Some cs \<and> ds' = isel d (argsort (map cell_key cs)) ds"
  using assms by (auto simp: sortby_def split: option.splits list.splits)

lemma isel_simps:
  "var_names (isel d idx ds) = var_names ds"
  "coord_names (isel d idx ds) = coord_names ds"
  "attrs (isel d idx ds) = attrs ds"
  "map_of (variables (isel d idx ds)) k = map_option (isel_var d idx) (map_of (variables ds) k)"
  by (auto simp: isel_def var_names_def map_of_map_vars)

lemma dims_isel_var: "dims (isel_var d idx v) = dims v"
  by (simp add: isel_var_def)

lemma ds_dims_isel: "ds_dims (isel d idx ds) = ds_dims ds"
  by (simp add: ds_dims_def isel_def dims_isel_var comp_def case_prod_unfold)

lemma in_ds_dims: "d \<in> set (ds_dims ds) \<longleftrightarrow> (\<exists>(k, v) \<in> set (variables ds). d \<in> set (dims v))"
  by (auto simp: ds_dims_def)

section \<open>Properties of the file normalizer\<close>

text \<open>
  C8. A dataset that \<^verbatim>\<open>process_file\<close> returns has none of the bookkeeping fields
  \<^verbatim>\<open>obs\<close>, \<^verbatim>\<open>id\<close>, \<^verbatim>\<open>driver_timestamp\<close>, \<^verbatim>\<open>ingestion_timestamp\<close>, \<^verbatim>\<open>port_timestamp\<close>,
  \<^verbatim>\<open>preferred_timestamp\<close>, as a variable or as a coordinate; no variable is along the
  dimension \<^verbatim>\<open>obs\<close> any more, and \<^verbatim>\<open>time\<close> is a coordinate variable along the dimension
  \<^verbatim>\<open>time\<close>.
\<close>

theorem process_file_no_bookkeeping:
  assumes "process_file open_dataset catalog_file = Inr ds"
  shows "(\<forall>k \<in> set bookkeeping. k \<notin> set (var_names ds) \<and> k \<notin> set (coord_names ds))
    \<and> ''obs'' \<notin> set (ds_dims ds)
    \<and> (\<exists>v. map_of (variables ds) ''time'' = Some v \<and> dims v = [''time''])
    \<and> ''time'' \<in> set (coord_names ds)"
proof -
  from assms obtain f ds0 ds1 ds2 ds3 where
    sw: "swap_dims ''obs'' ''time'' ds0 = Inr ds1"
    and dr: "drop_vars bookkeeping ds1 = Inr ds2"
    and so: "sortby ''time'' ds2 = Inr ds3"
    and ds: "ds = ds3\<lparr>attrs := file_attrs (attrs ds3)\<rparr>"
    by (auto simp: process_file_def and_then_Inr split: option.splits)
  from sortby_Inr [OF so] obtain d idx where ds3: "ds3 = isel d idx ds2"
    by blast
  have names: "var_names ds = var_names ds2" and coords: "coord_names ds = coord_names ds2"
    and dd: "ds_dims ds = ds_dims ds2"
    and look: "map_of (variables ds) k = map_option (isel_var d idx) (map_of (variables ds2) k)" for k
    by (simp_all add: ds ds3 isel_simps var_names_def ds_dims_def isel_def dims_isel_var
        comp_def case_prod_unfold map_of_map_vars [unfolded case_prod_unfold])
  have "\<forall>k \<in> set bookkeeping. k \<notin> set (var_names ds2) \<and> k \<notin> set (coord_names ds2)"
    unfolding var_names_def drop_vars_Inr(1,2) [OF dr] by auto
  then have a: "\<forall>k \<in> set bookkeeping. k \<notin> set (var_names ds) \<and> k \<notin> set (coord_names ds)"
    by (simp add: names coords)
  have "''obs'' \<notin> set (ds_dims ds2)"
    unfolding in_ds_dims drop_vars_Inr(1) [OF dr] swap_dims_Inr(1) [OF sw] by auto
  then have b: "''obs'' \<notin> set (ds_dims ds)"
    by (simp add: dd)
  from swap_dims_Inr(4) [OF sw] obtain v
    where v: "map_of (variables ds0) ''time'' = Some v" "dims v = [''obs'']"
    by blast
  have "map_of (variables ds2) ''time'' = Some (v\<lparr>dims := [''time'']\<rparr>)"
    unfolding drop_vars_Inr(1) [OF dr] swap_dims_Inr(1) [OF sw] map_of_filter_keys map_of_map_vars
    using v by (simp add: bookkeeping_def)
  then have c: "\<exists>v. map_of (variables ds) ''time'' = Some v \<and> dims v = [''time'']"
    unfolding look by (simp add: dims_isel_var)
  have e: "''time'' \<in> set (coord_names ds)"
    unfolding coords drop_vars_Inr(2) [OF dr] swap_dims_Inr(2) [OF sw]
    by (simp add: bookkeeping_def)
  show ?thesis using a b c e by blast
qed

theorem process_file_no_bookkeeping_witness:
  "process_file open0 (Some ''catalog.html?dataset=a.nc'') = Inr (frame [0, 3, 5] [10, 13, 15])
   \<and> var_names (frame [0, 3, 5] [10, 13, 15]) = [''time'', ''temperature'']
   \<and> ''obs'' \<notin> set (ds_dims (frame [0, 3, 5] [10, 13, 15]))
   \<and> ''time'' \<in> set (coord_names (frame [0, 3, 5] [10, 13, 15]))"
  using process_file_a process_file_no_bookkeeping [OF process_file_a]
  by (simp add: frame_def var_names_def)


section \<open>Properties of arrays\<close>

text \<open>A shape without a zero before its last entry: the shapes that nested rows can show.\<close>

definition full :: "nat list \<Rightarrow> bool" where
  "full s = (\<forall>j. Suc j < length s \<longrightarrow> s ! j \<noteq> 0)"

lemma full_Cons: "full (n # ns) \<longleftrightarrow> (ns \<noteq> [] \<longrightarrow> n \<noteq> 0) \<and> full ns"
  unfolding full_def
  by (auto simp: nth_Cons split: nat.splits)

lemma full_nd_shape: "full (nd_shape a)"
proof (induction a)
  case (Cell c)
  show ?case by (simp add: full_def)
next
  case (Arr xs)
  show ?case
  proof (cases xs)
    case Nil
    then show ?thesis by (simp add: full_def)
  next
    case (Cons x rest)
    with Arr show ?thesis by (simp add: full_Cons)
  qed
qed

lemma has_shape_full: "has_shape s a \<Longrightarrow> full s \<Longrightarrow> nd_shape a = s"
proof (induction s a rule: has_shape.induct)
  case (2 n ns xs)
  then show ?case
    by (cases xs) (auto simp: full_Cons list_all_iff)
qed auto

text \<open>An array whose rows all have the shape of the first, at every depth.\<close>

definition regular :: "nd \<Rightarrow> bool" where
  "regular a = has_shape (nd_shape a) a"

lemma has_shape_append:
  "has_shape sa a \<Longrightarrow> has_shape sb b \<Longrightarrow> k < length sa \<Longrightarrow> sa[k := 0] = sb[k := 0]
   \<Longrightarrow> has_shape (sa[k := sa ! k + sb ! k]) (nd_append k a b)"
proof (induction k arbitrary: sa sb a b)
  case 0
  then show ?case
    by (cases sa; cases sb; cases a; cases b) (auto simp: list_all_iff)
next
  case (Suc k)
  from Suc.prems obtain n ns xs where sa: "sa = n # ns" and a: "a = Arr xs"
    by (cases sa; cases a) auto
  from Suc.prems sa obtain m ms ys where sb: "sb = m # ms" and b: "b = Arr ys"
    by (cases sb; cases b) auto
  from Suc.prems have len: "length xs = n" "length ys = n" and k: "k < length ns"
    and eq: "ns[k := 0] = ms[k := 0]"
    and xs: "\<forall>x\<in>set xs. has_shape ns x" and ys: "\<forall>y\<in>set ys. has_shape ms y"
    by (auto simp: sa sb a b list_all_iff)
  have "has_shape (ns[k := ns ! k + ms ! k]) (nd_append k x y)"
    if "(x, y) \<in> set (zip xs ys)" for x y
    using that xs ys k eq by (auto intro!: Suc.IH dest: set_zip_leftD set_zip_rightD)
  then show ?case
    using len by (auto simp: sa sb a b list_all_iff)
qed

lemma take_take:
  "i < length idx \<Longrightarrow> nd_take k [i] (nd_take k idx a) = nd_take k [idx ! i] a"
proof (induction k arbitrary: a)
  case 0
  then show ?case by (cases a) auto
next
  case (Suc k)
  then show ?case by (cases a) auto
qed

lemma has_shape_take:
  "has_shape s a \<Longrightarrow> k < length s \<Longrightarrow> \<forall>i\<in>set idx. i < s ! k
   \<Longrightarrow> has_shape (s[k := length idx]) (nd_take k idx a)"
proof (induction k arbitrary: s a)
  case 0
  then show ?case
    by (cases s; cases a) (auto simp: list_all_iff)
next
  case (Suc k)
  then show ?case
    by (cases s; cases a) (auto simp: list_all_iff)
qed

lemma map_zip_left: "length xs = length ys \<Longrightarrow> map (\<lambda>(x, y). f x) (zip xs ys) = map f xs"
  by (induction xs ys rule: list_induct2) auto

lemma map_zip_right: "length xs = length ys \<Longrightarrow> map (\<lambda>(x, y). g y) (zip xs ys) = map g ys"
  by (induction xs ys rule: list_induct2) auto

lemma take_append:
  "has_shape sa a \<Longrightarrow> has_shape sb b \<Longrightarrow> k < length sa \<Longrightarrow> sa[k := 0] = sb[k := 0]
   \<Longrightarrow> nd_take k [i] (nd_append k a b)
       = (if i < sa ! k then nd_take k [i] a else nd_take k [i - sa ! k] b)"
proof (induction k arbitrary: sa sb a b)
  case 0
  then show ?case
    by (cases sa; cases sb; cases a; cases b) (auto simp: nth_append)
next
  case (Suc k)
  from Suc.prems obtain n ns xs where sa: "sa = n # ns" and a: "a = Arr xs"
    by (cases sa; cases a) auto
  from Suc.prems sa obtain m ms ys where sb: "sb = m # ms" and b: "b = Arr ys"
    by (cases sb; cases b) auto
  from Suc.prems have len: "length xs = n" "length ys = n" and k: "k < length ns"
    and eq: "ns[k := 0] = ms[k := 0]"
    and xs: "\<forall>x\<in>set xs. has_shape ns x" and ys: "\<forall>y\<in>set ys. has_shape ms y"
    by (auto simp: sa sb a b list_all_iff)
  have step: "nd_take k [i] (nd_append k x y)
       = (if i < ns ! k then nd_take k [i] x else nd_take k [i - ns ! k] y)"
    if "(x, y) \<in> set (zip xs ys)" for x y
  proof -
    from that have "x \<in> set xs" "y \<in> set ys"
      by (auto dest: set_zip_leftD set_zip_rightD)
    with xs ys have "has_shape ns x" "has_shape ms y" by auto
    then show ?thesis using Suc.IH [of ns x ms y] k eq by simp
  qed
  have "map (\<lambda>(x, y). nd_take k [i] (nd_append k x y)) (zip xs ys)
      = map (\<lambda>(x, y). if i < ns ! k then nd_take k [i] x else nd_take k [i - ns ! k] y) (zip xs ys)"
    using step by (intro map_cong) auto
  also have "\<dots> = (if i < ns ! k then map (nd_take k [i]) xs else map (nd_take k [i - ns ! k]) ys)"
    using len by (simp add: map_zip_left map_zip_right)
  finally show ?case
    by (simp add: sa a b comp_def case_prod_unfold)
qed


text \<open>The slices of an array along axis \<open>k\<close>, in order: \<^verbatim>\<open>a.take([i], axis=k)\<close> for every index \<open>i\<close>.\<close>

definition slices :: "nat \<Rightarrow> nd \<Rightarrow> nd list" where
  "slices k a = map (\<lambda>i. nd_take k [i] a) [0..<nd_shape a ! k]"

lemma full_update: "full s \<Longrightarrow> (Suc k < length s \<longrightarrow> n \<noteq> 0) \<Longrightarrow> full (s[k := n])"
proof (cases "k < length s")
  case True
  assume "full s" "Suc k < length s \<longrightarrow> n \<noteq> 0"
  with True show ?thesis
    unfolding full_def by (auto simp: nth_list_update)
next
  case False
  assume "full s"
  with False show ?thesis by (simp add: list_update_beyond not_less)
qed

lemma regular_append:
  assumes "regular a" "regular b" "k < length (nd_shape a)"
    and "(nd_shape a)[k := 0] = (nd_shape b)[k := 0]"
  shows "nd_shape (nd_append k a b) = (nd_shape a)[k := nd_shape a ! k + nd_shape b ! k]"
    and "regular (nd_append k a b)"
proof -
  let ?s = "(nd_shape a)[k := nd_shape a ! k + nd_shape b ! k]"
  have h: "has_shape ?s (nd_append k a b)"
    using assms by (intro has_shape_append) (auto simp: regular_def)
  have "Suc k < length (nd_shape a) \<longrightarrow> nd_shape a ! k \<noteq> 0"
    using full_nd_shape [of a] by (auto simp: full_def)
  then have "full ?s"
    by (intro full_update full_nd_shape) auto
  with h show "nd_shape (nd_append k a b) = ?s"
    by (rule has_shape_full)
  with h show "regular (nd_append k a b)"
    by (simp add: regular_def)
qed

lemma upt_split_shift: "[0..<n + m] = [0..<n] @ map (\<lambda>i. i + n) [0..<m]" for n m :: nat
proof -
  have "[0..<n + m] = [0..<n] @ [n..<n + m]"
    by (rule upt_add_eq_append) simp
  also have "[n..<n + m] = map (\<lambda>i. i + n) [0..<m]"
    unfolding map_add_upt by (simp only: add.commute)
  finally show ?thesis .
qed

lemma slices_append:
  assumes "regular a" "regular b" "k < length (nd_shape a)"
    and "(nd_shape a)[k := 0] = (nd_shape b)[k := 0]"
  shows "slices k (nd_append k a b) = slices k a @ slices k b"
proof -
  let ?n = "nd_shape a ! k" and ?m = "nd_shape b ! k"
  have ha: "has_shape (nd_shape a) a" and hb: "has_shape (nd_shape b) b"
    using assms by (auto simp: regular_def)
  have t: "nd_take k [i] (nd_append k a b) = (if i < ?n then nd_take k [i] a else nd_take k [i - ?n] b)"
    for i
    by (rule take_append [OF ha hb assms(3,4)])
  have len: "nd_shape (nd_append k a b) ! k = ?n + ?m"
    using assms by (simp add: regular_append(1))
  have split: "[0..<?n + ?m] = [0..<?n] @ map (\<lambda>i. i + ?n) [0..<?m]"
    by (rule upt_split_shift)
  have l: "map (\<lambda>i. nd_take k [i] (nd_append k a b)) [0..<?n] = map (\<lambda>i. nd_take k [i] a) [0..<?n]"
    by (rule map_cong) (simp_all add: t)
  have r: "map (\<lambda>i. nd_take k [i] (nd_append k a b)) (map (\<lambda>i. i + ?n) [0..<?m])
      = map (\<lambda>i. nd_take k [i] b) [0..<?m]"
    unfolding map_map comp_def by (rule map_cong) (simp_all add: t)
  have "slices k (nd_append k a b) = map (\<lambda>i. nd_take k [i] (nd_append k a b)) [0..<?n + ?m]"
    unfolding slices_def len ..
  also have "\<dots> = map (\<lambda>i. nd_take k [i] a) [0..<?n] @ map (\<lambda>i. nd_take k [i] b) [0..<?m]"
    unfolding split map_append l r ..
  finally show ?thesis
    unfolding slices_def .
qed

lemma joinable_Cons:
  assumes "joinable k (a # b # rest)"
  shows "joinable k (b # rest)" and "regular a" and "k < length (nd_shape a)"
    and "(nd_shape a)[k := 0] = (nd_shape b)[k := 0]"
  using assms by (auto simp: joinable_def regular_def list_all_iff)

lemma nd_concat_joinable:
  "joinable k as \<Longrightarrow> as \<noteq> [] \<Longrightarrow>
     regular (nd_concat k as) \<and> k < length (nd_shape (nd_concat k as))
     \<and> (nd_shape (nd_concat k as))[k := 0] = (nd_shape (hd as))[k := 0]
     \<and> nd_shape (nd_concat k as) ! k = sum_list (map (\<lambda>a. nd_shape a ! k) as)
     \<and> slices k (nd_concat k as) = concat (map (slices k) as)"
proof (induction k as rule: nd_concat.induct)
  case (1 k)
  then show ?case by simp
next
  case (2 k a)
  then show ?case by (simp add: joinable_def regular_def)
next
  case (3 k a b rest)
  note j = joinable_Cons [OF "3.prems"(1)]
  let ?r = "nd_concat k (b # rest)"
  from "3.IH" [OF j(1)] have r: "regular ?r" "k < length (nd_shape ?r)"
    "(nd_shape ?r)[k := 0] = (nd_shape b)[k := 0]"
    "nd_shape ?r ! k = sum_list (map (\<lambda>a. nd_shape a ! k) (b # rest))"
    "slices k ?r = concat (map (slices k) (b # rest))"
    by simp_all
  have eq: "(nd_shape a)[k := 0] = (nd_shape ?r)[k := 0]"
    using j(4) r(3) by simp
  note ap = regular_append [OF j(2) r(1) j(3) eq]
  have "slices k (nd_append k a ?r) = slices k a @ slices k ?r"
    by (rule slices_append [OF j(2) r(1) j(3) eq])
  then show ?case
    using ap r j(3) by simp
qed

lemma slices_take:
  assumes "regular a" "k < length (nd_shape a)" "length idx = nd_shape a ! k"
    and "\<forall>i\<in>set idx. i < nd_shape a ! k"
  shows "nd_shape (nd_take k idx a) = nd_shape a" and "regular (nd_take k idx a)"
proof -
  have "has_shape ((nd_shape a)[k := length idx]) (nd_take k idx a)"
    using assms by (intro has_shape_take) (auto simp: regular_def)
  then have h: "has_shape (nd_shape a) (nd_take k idx a)"
    using assms(3) by simp
  then show "nd_shape (nd_take k idx a) = nd_shape a"
    by (rule has_shape_full) (rule full_nd_shape)
  with h show "regular (nd_take k idx a)"
    by (simp add: regular_def)
qed

lemma rows_concat:
  assumes "\<forall>f\<in>set fs. \<forall>k\<in>set names. length (S f k) = N f"
  shows "map (\<lambda>i. map (\<lambda>k. g k (concat (map (\<lambda>f. S f k) fs) ! i)) names) [0..<sum_list (map N fs)]
       = concat (map (\<lambda>f. map (\<lambda>i. map (\<lambda>k. g k (S f k ! i)) names) [0..<N f]) fs)"
  using assms
proof (induction fs)
  case Nil
  show ?case by simp
next
  case (Cons f fs)
  let ?C = "\<lambda>k. concat (map (\<lambda>f. S f k) fs)"
  have len: "\<forall>k\<in>set names. length (S f k) = N f"
    using Cons.prems by simp
  have l: "map (\<lambda>i. map (\<lambda>k. g k ((S f k @ ?C k) ! i)) names) [0..<N f]
      = map (\<lambda>i. map (\<lambda>k. g k (S f k ! i)) names) [0..<N f]"
    using len by (intro map_cong refl) (simp add: nth_append)
  have r: "map (\<lambda>i. map (\<lambda>k. g k ((S f k @ ?C k) ! i)) names) (map (\<lambda>i. i + N f) [0..<sum_list (map N fs)])
      = map (\<lambda>i. map (\<lambda>k. g k (?C k ! i)) names) [0..<sum_list (map N fs)]"
    unfolding map_map comp_def using len by (intro map_cong refl) (simp add: nth_append)
  have ih: "map (\<lambda>i. map (\<lambda>k. g k (?C k ! i)) names) [0..<sum_list (map N fs)]
       = concat (map (\<lambda>f. map (\<lambda>i. map (\<lambda>k. g k (S f k ! i)) names) [0..<N f]) fs)"
    using Cons by simp
  show ?case
    unfolding list.map sum_list.Cons concat.simps upt_split_shift map_append l r ih ..
qed

lemma mset_map_perm:
  assumes "mset idx = mset [0..<length xs]"
  shows "mset (map (\<lambda>i. xs ! i) idx) = mset xs"
proof -
  have "mset (map (\<lambda>i. xs ! i) idx) = image_mset (\<lambda>i. xs ! i) (mset idx)"
    by simp
  also have "\<dots> = mset (map (\<lambda>i. xs ! i) [0..<length xs])"
    unfolding assms by simp
  also have "\<dots> = mset xs"
    by (simp add: map_nth)
  finally show ?thesis .
qed

lemma argsort_perm: "mset (argsort ks) = mset [0..<length ks]"
proof -
  have "mset (argsort ks) = image_mset snd (mset (sort_key fst (zip ks [0..<length ks])))"
    unfolding argsort_def by (rule mset_map)
  also have "\<dots> = image_mset snd (mset (zip ks [0..<length ks]))"
    by (simp only: mset_sort)
  also have "\<dots> = mset (map snd (zip ks [0..<length ks]))"
    by (rule mset_map [symmetric])
  also have "map snd (zip ks [0..<length ks]) = [0..<length ks]"
    by (rule map_snd_zip) simp
  finally show ?thesis .
qed

lemma argsort_sorted: "sorted (map (\<lambda>i. ks ! i) (argsort ks))"
proof -
  let ?ps = "sort_key fst (zip ks [0..<length ks])"
  have "\<forall>p\<in>set ?ps. ks ! snd p = fst p"
    by (auto simp: set_zip)
  then have "map (\<lambda>i. ks ! i) (argsort ks) = map fst ?ps"
    by (simp add: argsort_def)
  then show ?thesis by simp
qed

lemma argsort_length: "length (argsort ks) = length ks"
  by (simp add: argsort_def)

lemma argsort_bound: "i \<in> set (argsort ks) \<Longrightarrow> i < length ks"
  using argsort_perm [of ks] by (metis atLeastLessThan_iff set_mset_mset set_upt)

section \<open>Rows of observations\<close>

text \<open>
  Every variable along \<open>d\<close> is a regular array that has the axis, of the length of the
  dimension.
\<close>

definition aligned :: "string \<Rightarrow> dataset \<Rightarrow> bool" where
  "aligned d ds =
     list_all (\<lambda>(k, v). d \<in> set (dims v) \<longrightarrow>
        regular (vdata v) \<and> index_of d (dims v) < length (nd_shape (vdata v))
        \<and> var_len d v = dim_len d ds) (variables ds)"

text \<open>
  The variables along \<open>d\<close>; the observation of index \<open>i\<close>: for each of the variables
  named, its slice at \<open>i\<close> along \<open>d\<close>; and the observations of a dataset, in order.
\<close>

definition obs_vars :: "string \<Rightarrow> dataset \<Rightarrow> string list" where
  "obs_vars d ds = map fst (filter (\<lambda>(k, v). d \<in> set (dims v)) (variables ds))"

definition obs_row :: "string \<Rightarrow> string list \<Rightarrow> dataset \<Rightarrow> nat \<Rightarrow> (string \<times> nd option) list" where
  "obs_row d names ds i =
     map (\<lambda>k. (k, map_option (\<lambda>v. nd_take (index_of d (dims v)) [i] (vdata v))
                    (map_of (variables ds) k))) names"

definition obs_rows :: "string \<Rightarrow> string list \<Rightarrow> dataset \<Rightarrow> (string \<times> nd option) list list" where
  "obs_rows d names ds = map (obs_row d names ds) [0..<dim_len d ds]"

lemma obs_vars_lookup:
  assumes "distinct (var_names ds)" "k \<in> set (obs_vars d ds)"
  shows "\<exists>v. map_of (variables ds) k = Some v \<and> (k, v) \<in> set (variables ds) \<and> d \<in> set (dims v)"
proof -
  from assms(2) obtain v where "(k, v) \<in> set (variables ds)" "d \<in> set (dims v)"
    by (auto simp: obs_vars_def)
  moreover from this assms(1) have "map_of (variables ds) k = Some v"
    by (simp add: var_names_def)
  ultimately show ?thesis by blast
qed

lemma aligned_var:
  assumes "aligned d ds" "(k, v) \<in> set (variables ds)" "d \<in> set (dims v)"
  shows "regular (vdata v)" "index_of d (dims v) < length (nd_shape (vdata v))"
    "var_len d v = dim_len d ds"
  using assms by (auto simp: aligned_def list_all_iff)

lemma those_Some: "those (map h xs) = Some ys \<Longrightarrow> list_all2 (\<lambda>x y. h x = Some y) xs ys"
  by (induction xs arbitrary: ys) (auto split: option.splits)

lemma cells_of_length: "cells_of a = Some cs \<Longrightarrow> \<exists>xs. a = Arr xs \<and> length xs = length cs"
  by (cases a) (auto dest!: those_Some dest: list_all2_lengthD)

lemma var_len_isel:
  assumes "regular (vdata v)" "index_of d (dims v) < length (nd_shape (vdata v))"
    and "length idx = var_len d v" "\<forall>i\<in>set idx. i < var_len d v"
  shows "var_len d (isel_var d idx v) = var_len d v"
    and "regular (vdata (isel_var d idx v))"
    and "nd_shape (vdata (isel_var d idx v)) = nd_shape (vdata v)"
  using assms slices_take [of "vdata v" "index_of d (dims v)" idx]
  by (auto simp: isel_var_def var_len_def)

lemma filter_isel:
  "filter (\<lambda>(k, v). d \<in> set (dims v)) (map (\<lambda>(k, v). (k, isel_var d idx v)) xs)
     = map (\<lambda>(k, v). (k, isel_var d idx v)) (filter (\<lambda>(k, v). d \<in> set (dims v)) xs)"
  by (induction xs) (auto simp: dims_isel_var)

lemma dim_len_isel:
  assumes "aligned d ds" "length idx = dim_len d ds" "\<forall>i\<in>set idx. i < dim_len d ds"
  shows "dim_len d (isel d idx ds) = dim_len d ds"
proof (cases "filter (\<lambda>(k, v). d \<in> set (dims v)) (variables ds)")
  case Nil
  have "variables (isel d idx ds) = map (\<lambda>(k, v). (k, isel_var d idx v)) (variables ds)"
    by (simp add: isel_def)
  then show ?thesis
    unfolding dim_len_def by (simp only: filter_isel Nil list.map list.case)
next
  case (Cons p ps)
  obtain k v where p: "p = (k, v)" by (cases p)
  have vs: "variables (isel d idx ds) = map (\<lambda>(k, v). (k, isel_var d idx v)) (variables ds)"
    by (simp add: isel_def)
  have "(k, v) \<in> set (filter (\<lambda>(k, v). d \<in> set (dims v)) (variables ds))"
    by (simp add: Cons p)
  then have "(k, v) \<in> set (variables ds)" "d \<in> set (dims v)"
    by simp_all
  note a = aligned_var [OF assms(1) this]
  have "var_len d (isel_var d idx v) = var_len d v"
    using a assms(2,3) by (intro var_len_isel) auto
  moreover have "dim_len d ds = var_len d v"
    unfolding dim_len_def by (simp only: Cons p list.case prod.case)
  moreover have "dim_len d (isel d idx ds) = var_len d (isel_var d idx v)"
    unfolding dim_len_def by (simp only: vs filter_isel Cons p list.map list.case prod.case)
  ultimately show ?thesis by simp
qed

lemma obs_row_isel:
  assumes "distinct (var_names ds)" "set names \<subseteq> set (obs_vars d ds)" "i < length idx"
  shows "obs_row d names (isel d idx ds) i = obs_row d names ds (idx ! i)"
  unfolding obs_row_def
proof (rule map_cong [OF refl])
  fix k assume "k \<in> set names"
  with assms obtain v where v: "map_of (variables ds) k = Some v" "d \<in> set (dims v)"
    using obs_vars_lookup by blast
  show "(k, map_option (\<lambda>v. nd_take (index_of d (dims v)) [i] (vdata v))
             (map_of (variables (isel d idx ds)) k))
      = (k, map_option (\<lambda>v. nd_take (index_of d (dims v)) [idx ! i] (vdata v))
             (map_of (variables ds) k))"
    using v assms(3) by (simp add: isel_simps isel_var_def take_take)
qed

lemma obs_rows_isel:
  assumes dist: "distinct (var_names ds)" and al: "aligned d ds"
    and names: "set names \<subseteq> set (obs_vars d ds)"
    and len: "length idx = dim_len d ds" and bound: "\<forall>i\<in>set idx. i < dim_len d ds"
  shows "obs_rows d names (isel d idx ds) = map (\<lambda>i. obs_rows d names ds ! i) idx"
proof -
  have "obs_rows d names (isel d idx ds) = map (obs_row d names (isel d idx ds)) [0..<length idx]"
    by (simp add: obs_rows_def dim_len_isel [OF al len bound] len)
  also have "\<dots> = map (\<lambda>i. obs_row d names ds (idx ! i)) [0..<length idx]"
    by (rule map_cong [OF refl]) (simp add: obs_row_isel [OF dist names])
  also have "\<dots> = map (obs_row d names ds) (map (\<lambda>i. idx ! i) [0..<length idx])"
    by (simp add: comp_def)
  also have "\<dots> = map (obs_row d names ds) idx"
    by (simp only: map_nth)
  also have "\<dots> = map (\<lambda>i. obs_rows d names ds ! i) idx"
    using bound by (intro map_cong refl) (simp add: obs_rows_def)
  finally show ?thesis .
qed

lemma sortby_rows:
  assumes so: "sortby d ds = Inr m" and dist: "distinct (var_names ds)" and al: "aligned d ds"
    and tv: "\<exists>v. map_of (variables ds) d = Some v \<and> dims v = [d]"
    and names: "set names \<subseteq> set (obs_vars d ds)"
  shows "mset (obs_rows d names m) = mset (obs_rows d names ds)"
proof -
  from sortby_Inr [OF so] tv obtain v cs where
    v: "map_of (variables ds) d = Some v" "dims v = [d]" "cells_of (vdata v) = Some cs"
    and m: "m = isel d (argsort (map cell_key cs)) ds"
    by auto
  let ?idx = "argsort (map cell_key cs)"
  from cells_of_length [OF v(3)] obtain xs where xs: "vdata v = Arr xs" "length xs = length cs"
    by blast
  have "(d, v) \<in> set (variables ds)" using v(1) by (rule map_of_SomeD)
  from aligned_var(3) [OF al this] v(2) have n: "dim_len d ds = length cs"
    by (simp add: var_len_def xs)
  have len: "length ?idx = dim_len d ds"
    by (simp add: argsort_length n)
  have bound: "\<forall>i\<in>set ?idx. i < dim_len d ds"
    using argsort_bound [of _ "map cell_key cs"] by (auto simp: n)
  have perm: "mset ?idx = mset [0..<length (obs_rows d names ds)]"
    by (simp only: argsort_perm obs_rows_def length_map n length_upt diff_zero)
  show ?thesis
    unfolding m obs_rows_isel [OF dist al names len bound]
    by (rule mset_map_perm [OF perm])
qed

lemma those_take:
  assumes "list_all2 (\<lambda>x c. as_cell x = Some c) xs cs" "\<forall>i\<in>set idx. i < length cs"
  shows "those (map as_cell (map (\<lambda>i. xs ! i) idx)) = Some (map (\<lambda>i. cs ! i) idx)"
  using assms(2)
proof (induction idx)
  case Nil
  then show ?case by simp
next
  case (Cons i rest)
  then show ?case using assms(1) by (auto simp: list_all2_conv_all_nth)
qed

lemma sortby_sorted:
  assumes so: "sortby name ds = Inr m"
  shows "\<exists>v cs. map_of (variables m) name = Some v \<and> cells_of (vdata v) = Some cs
           \<and> sorted (map cell_key cs)"
proof -
  from sortby_Inr [OF so] obtain v d cs where
    v: "map_of (variables ds) name = Some v" "dims v = [d]" "cells_of (vdata v) = Some cs"
    and m: "m = isel d (argsort (map cell_key cs)) ds"
    by auto
  let ?idx = "argsort (map cell_key cs)"
  from v(3) obtain xs where xs: "vdata v = Arr xs" "those (map as_cell xs) = Some cs"
    by (cases "vdata v") auto
  from those_Some [OF xs(2)] have l2: "list_all2 (\<lambda>x c. as_cell x = Some c) xs cs" .
  have b: "\<forall>i\<in>set ?idx. i < length cs"
    using argsort_bound [of _ "map cell_key cs"] by auto
  have look: "map_of (variables m) name = Some (isel_var d ?idx v)"
    by (simp add: m isel_simps v)
  have cells: "cells_of (vdata (isel_var d ?idx v)) = Some (map (\<lambda>i. cs ! i) ?idx)"
    using those_take [OF l2 b] by (simp add: isel_var_def v xs)
  have "map cell_key (map (\<lambda>i. cs ! i) ?idx) = map (\<lambda>i. map cell_key cs ! i) ?idx"
    using b by simp
  then have "sorted (map cell_key (map (\<lambda>i. cs ! i) ?idx))"
    by (simp only: argsort_sorted)
  with look cells show ?thesis by blast
qed

lemma sequence_Inr: "sequence rs = Inr ys \<Longrightarrow> list_all2 (\<lambda>r y. r = Inr y) rs ys"
  by (induction rs arbitrary: ys) (auto simp: and_then_Inr)

lemma join_var_Inr:
  assumes "join_var d frames k = Inr p"
  shows "\<exists>vs w. p = (k, w) \<and> list_all2 (\<lambda>f v. map_of (variables f) k = Some v) frames vs
           \<and> concat_vars d (map (dim_len d) frames) vs = Inr w"
  using assms by (auto simp: join_var_def and_then_Inr split: option.splits dest: those_Some)

text \<open>
  Frames of one schema, and frames in which each variable has one type of values: the
  values of the variable \<open>k\<close> in all the frames are of one kind.
\<close>

definition one_schema :: "string \<Rightarrow> dataset list \<Rightarrow> bool" where
  "one_schema d frames = list_all (same_schema d (hd frames)) (tl frames)"

definition one_kind :: "cell list \<Rightarrow> bool" where
  "one_kind cs = list_all (\<lambda>c. kind c = kind (hd cs)) cs"

definition column_cells :: "dataset list \<Rightarrow> string \<Rightarrow> cell list" where
  "column_cells frames k =
     concat (map (\<lambda>f. case map_of (variables f) k of None \<Rightarrow> [] | Some u \<Rightarrow> nd_cells (vdata u)) frames)"

definition same_dtypes :: "dataset list \<Rightarrow> bool" where
  "same_dtypes frames = list_all (\<lambda>k. one_kind (column_cells frames k)) (var_names (hd frames))"

lemma one_kind_iff: "one_kind cs \<longleftrightarrow> (\<forall>c\<in>set cs. \<forall>c'\<in>set cs. kind c = kind c')"
  by (cases cs) (auto simp: one_kind_def list_all_iff)

lemma one_kind_subset: "one_kind cs \<Longrightarrow> set cs' \<subseteq> set cs \<Longrightarrow> one_kind cs'"
  unfolding one_kind_iff by blast

lemma fold_max_const: "\<forall>x\<in>set xs. x = k \<Longrightarrow> xs \<noteq> [] \<Longrightarrow> fold max xs (a::nat) = max k a"
proof (induction xs arbitrary: a)
  case Nil
  then show ?case by simp
next
  case (Cons x xs)
  then show ?case
    by (cases "xs = []") simp_all
qed

lemma cast_kind: "cast (kind c) c = c"
  by (cases c) simp_all

lemma cast_same:
  assumes "one_kind cs" "c \<in> set cs"
  shows "cast (common_kind cs) c = c"
proof -
  have a: "\<forall>x\<in>set (map kind cs). x = kind c"
  proof
    fix x assume "x \<in> set (map kind cs)"
    then obtain c' where "c' \<in> set cs" "x = kind c'"
      by auto
    with assms show "x = kind c"
      unfolding one_kind_iff by blast
  qed
  from assms(2) have b: "map kind cs \<noteq> []"
    by auto
  have "fold max (map kind cs) 0 = max (kind c) 0"
    using a b by (rule fold_max_const)
  then have "common_kind cs = kind c"
    unfolding common_kind_def by simp
  then show ?thesis
    by (simp only: cast_kind)
qed

lemma nd_map_id: "(\<And>c. c \<in> set (nd_cells a) \<Longrightarrow> f c = c) \<Longrightarrow> nd_map f a = a"
proof (induction a)
  case (Cell c)
  then show ?case by simp
next
  case (Arr xs)
  have "nd_map f x = x" if "x \<in> set xs" for x
    using that Arr by auto
  then show ?case
    by (simp add: map_idI)
qed

lemma list_all2_left_ex: "list_all2 P xs ys \<Longrightarrow> x \<in> set xs \<Longrightarrow> \<exists>y\<in>set ys. P x y"
  by (induction rule: list_all2_induct) auto

lemma list_all2_right_ex: "list_all2 P xs ys \<Longrightarrow> y \<in> set ys \<Longrightarrow> \<exists>x\<in>set xs. P x y"
  by (induction rule: list_all2_induct) auto


lemma xr_concat_nonempty: "xr_concat concat_mixed frames d = Inr c \<Longrightarrow> frames \<noteq> []"
  by (cases frames) (auto simp: xr_concat_def)

lemma xr_concat_Inr:
  assumes "xr_concat concat_mixed frames d = Inr c" "one_schema d frames"
  shows "\<exists>f0 rest joined. frames = f0 # rest \<and> list_all (same_schema d f0) rest
     \<and> list_all2 (\<lambda>(k, v) p. join_var d frames k = Inr p)
           (filter (\<lambda>(k, v). concat_over d frames k v) (variables f0)) joined
     \<and> variables c = filter (\<lambda>(k, v). \<not> concat_over d frames k v) (variables f0) @ joined
     \<and> coord_names c = coord_names f0 \<and> attrs c = attrs f0"
proof -
  from assms obtain f0 rest where fr: "frames = f0 # rest"
    by (cases frames) (auto simp: xr_concat_def)
  from assms fr have ss: "list_all (same_schema d f0) rest"
    by (simp add: one_schema_def)
  from assms fr ss obtain joined where
    sq: "sequence (map (\<lambda>(k, v). join_var d frames k)
            (filter (\<lambda>(k, v). concat_over d frames k v) (variables f0))) = Inr joined"
    and c: "c = \<lparr>variables = filter (\<lambda>(k, v). \<not> concat_over d frames k v) (variables f0) @ joined,
                 coord_names = coord_names f0, attrs = attrs f0\<rparr>"
    by (auto simp: xr_concat_def and_then_Inr)
  from sequence_Inr [OF sq]
  have "list_all2 (\<lambda>(k, v) p. join_var d frames k = Inr p)
           (filter (\<lambda>(k, v). concat_over d frames k v) (variables f0)) joined"
    by (simp add: list_all2_map1 case_prod_unfold)
  with fr ss c show ?thesis by simp
qed

text \<open>
  The invariant of an \<^verbatim>\<open>xarray\<close> dataset that the merge relies on: the variables have
  distinct names, and those along \<open>d\<close> all have the length of the dimension.
\<close>

definition same_length :: "string \<Rightarrow> dataset \<Rightarrow> bool" where
  "same_length d ds =
     list_all (\<lambda>(k, v). d \<in> set (dims v) \<longrightarrow> var_len d v = dim_len d ds) (variables ds)"

definition well_formed :: "string \<Rightarrow> dataset \<Rightarrow> bool" where
  "well_formed d ds = (distinct (var_names ds) \<and> same_length d ds)"

lemma piece_len:
  assumes "same_length d f" "map_of (variables f) k = Some u" "p = with_dim d (dim_len d f) u"
  shows "d \<in> set (dims p)" and "nd_shape (vdata p) ! index_of d (dims p) = dim_len d f"
proof -
  from assms(2) have "(k, u) \<in> set (variables f)" by (rule map_of_SomeD)
  with assms(1) have "d \<in> set (dims u) \<Longrightarrow> var_len d u = dim_len d f"
    by (auto simp: same_length_def list_all_iff)
  then show "d \<in> set (dims p)" and "nd_shape (vdata p) ! index_of d (dims p) = dim_len d f"
    by (auto simp: assms(3) with_dim_def var_len_def)
qed

lemma pieces_rel:
  assumes "list_all2 (\<lambda>f v. map_of (variables f) k = Some v) frames vs"
  shows "list_all2 (\<lambda>f p. \<exists>u. map_of (variables f) k = Some u \<and> p = with_dim d (dim_len d f) u)
           frames (map (\<lambda>(v, n). with_dim d n v) (zip vs (map (dim_len d) frames)))"
  using assms by (induction rule: list_all2_induct) auto

lemma sum_list_rel:
  "list_all2 (\<lambda>x y. g y = h x) xs ys \<Longrightarrow> sum_list (map g ys) = sum_list (map h xs)"
  by (induction rule: list_all2_induct) auto

lemma map_rel:
  "list_all2 (\<lambda>x y. g y = h x) xs ys \<Longrightarrow> map g ys = map h xs"
  by (induction rule: list_all2_induct) auto

lemma list_all2_mono_set:
  "list_all2 P xs ys \<Longrightarrow> (\<And>x y. x \<in> set xs \<Longrightarrow> y \<in> set ys \<Longrightarrow> P x y \<Longrightarrow> Q x y)
     \<Longrightarrow> list_all2 Q xs ys"
  by (induction rule: list_all2_induct) auto

lemma list_all2_right: "list_all2 (\<lambda>x y. Q y) xs ys \<Longrightarrow> \<forall>y\<in>set ys. Q y"
  by (induction rule: list_all2_induct) auto

lemma concat_vars_Inr:
  assumes "concat_vars d lens vs = Inr w" "ws = map (\<lambda>(v, n). with_dim d n v) (zip vs lens)"
    and "one_kind (concat (map (nd_cells \<circ> vdata) ws))"
  shows "ws \<noteq> []" "\<forall>y\<in>set ws. dims y = dims (hd ws)"
    "joinable (index_of d (dims (hd ws))) (map vdata ws)"
    "dims w = dims (hd ws)"
    "vdata w = nd_concat (index_of d (dims (hd ws))) (map vdata ws)"
proof -
  have "nd_map (cast (common_kind (concat (map (nd_cells \<circ> vdata) ws)))) (vdata q) = vdata q"
    if "q \<in> set ws" for q
  proof (rule nd_map_id)
    fix c assume "c \<in> set (nd_cells (vdata q))"
    with that have "c \<in> set (concat (map (nd_cells \<circ> vdata) ws))"
      by auto
    with assms(3) show "cast (common_kind (concat (map (nd_cells \<circ> vdata) ws))) c = c"
      by (rule cast_same)
  qed
  then have same: "map (nd_map (cast (common_kind (concat (map (nd_cells \<circ> vdata) ws))))) (map vdata ws)
      = map vdata ws"
    by (simp add: map_idI)
  from assms(1) have r: "(case ws of
        [] \<Rightarrow> Inl ValueError
      | w # ws' \<Rightarrow>
          if list_all (\<lambda>x. dims x = dims w) ws'
             \<and> joinable (index_of d (dims w)) (map vdata (w # ws'))
          then Inr \<lparr>dims = dims w,
                    vdata = nd_concat (index_of d (dims w))
                      (map (nd_map (cast (common_kind (concat (map (nd_cells \<circ> vdata) (w # ws'))))))
                         (map vdata (w # ws'))),
                    vattrs = vattrs w\<rparr>
          else Inl ValueError) = Inr w"
    unfolding concat_vars_def assms(2) [symmetric] .
  from r obtain w0 ws' where ws: "ws = w0 # ws'"
    by (cases ws) auto
  from r have c: "list_all (\<lambda>x. dims x = dims w0) ws'" "joinable (index_of d (dims w0)) (map vdata ws)"
    and w: "w = \<lparr>dims = dims w0,
                    vdata = nd_concat (index_of d (dims w0))
                      (map (nd_map (cast (common_kind (concat (map (nd_cells \<circ> vdata) ws)))))
                         (map vdata ws)),
                    vattrs = vattrs w0\<rparr>"
    unfolding ws by (auto split: if_splits)
  show "ws \<noteq> []" by (simp add: ws)
  show "\<forall>y\<in>set ws. dims y = dims (hd ws)"
    using c(1) by (auto simp: ws list_all_iff)
  show "joinable (index_of d (dims (hd ws))) (map vdata ws)"
    using c(2) by (simp add: ws)
  show "dims w = dims (hd ws)"
    by (simp add: w ws)
  show "vdata w = nd_concat (index_of d (dims (hd ws))) (map vdata ws)"
    unfolding w same by (simp add: ws)
qed

text \<open>What a joined variable is.\<close>

lemma joined_var:
  assumes sl: "\<forall>f\<in>set frames. same_length d f"
    and jv: "join_var d frames k = Inr p"
    and uni: "one_kind (column_cells frames k)"
  shows "\<exists>w. p = (k, w) \<and> d \<in> set (dims w) \<and> regular (vdata w)
     \<and> index_of d (dims w) < length (nd_shape (vdata w))
     \<and> var_len d w = sum_list (map (dim_len d) frames)
     \<and> (\<forall>v. (\<forall>f\<in>set frames. \<exists>u. map_of (variables f) k = Some u \<and> dims u = dims v) \<and> d \<in> set (dims v)
          \<longrightarrow> dims w = dims v
            \<and> slices (index_of d (dims v)) (vdata w)
              = concat (map (\<lambda>f. slices (index_of d (dims v)) (vdata (the (map_of (variables f) k)))) frames))"
proof -
  from join_var_Inr [OF jv] obtain vs w where p: "p = (k, w)"
    and vs: "list_all2 (\<lambda>f v. map_of (variables f) k = Some v) frames vs"
    and cv: "concat_vars d (map (dim_len d) frames) vs = Inr w"
    by blast
  define ws where "ws = map (\<lambda>(v, n). with_dim d n v) (zip vs (map (dim_len d) frames))"
  have rel: "list_all2 (\<lambda>f p. \<exists>u. map_of (variables f) k = Some u \<and> p = with_dim d (dim_len d f) u)
           frames ws"
    unfolding ws_def by (rule pieces_rel [OF vs])
  have "set (concat (map (nd_cells \<circ> vdata) ws)) \<subseteq> set (column_cells frames k)"
  proof
    fix c assume "c \<in> set (concat (map (nd_cells \<circ> vdata) ws))"
    then obtain q where q: "q \<in> set ws" "c \<in> set (nd_cells (vdata q))"
      by auto
    from list_all2_right_ex [OF rel q(1)] obtain f u where f: "f \<in> set frames"
      and u: "map_of (variables f) k = Some u" "q = with_dim d (dim_len d f) u"
      by blast
    from q(2) u(2) have "c \<in> set (nd_cells (vdata u))"
      by (auto simp: with_dim_def split: if_splits)
    with f u(1) show "c \<in> set (column_cells frames k)"
      by (force simp: column_cells_def)
  qed
  with uni have "one_kind (concat (map (nd_cells \<circ> vdata) ws))"
    by (rule one_kind_subset)
  note c = concat_vars_Inr [OF cv ws_def this]
  define ax where "ax = index_of d (dims (hd ws))"
  have rel2: "list_all2 (\<lambda>f p. nd_shape (vdata p) ! ax = dim_len d f \<and> d \<in> set (dims p)) frames ws"
  proof (rule list_all2_mono_set [OF rel])
    fix f q assume f: "f \<in> set frames" and q: "q \<in> set ws"
      and "\<exists>u. map_of (variables f) k = Some u \<and> q = with_dim d (dim_len d f) u"
    then obtain u where u: "map_of (variables f) k = Some u" "q = with_dim d (dim_len d f) u"
      by blast
    from f sl have s: "same_length d f" by blast
    from q c(2) have "dims q = dims (hd ws)" by blast
    with piece_len [OF s u]
    show "nd_shape (vdata q) ! ax = dim_len d f \<and> d \<in> set (dims q)"
      by (simp add: ax_def)
  qed
  have "\<forall>q\<in>set ws. d \<in> set (dims q)"
    by (rule list_all2_right) (rule list_all2_mono [OF rel2], simp)
  with c(1) have dx: "d \<in> set (dims (hd ws))"
    by simp
  have jn: "joinable ax (map vdata ws)" and ne: "map vdata ws \<noteq> []"
    using c(1,3) by (simp_all add: ax_def)
  note cj = nd_concat_joinable [OF jn ne]
  have "sum_list (map (\<lambda>q. nd_shape (vdata q) ! ax) ws) = sum_list (map (dim_len d) frames)"
    by (rule sum_list_rel) (rule list_all2_mono [OF rel2], simp)
  then have sum: "sum_list (map (\<lambda>a. nd_shape a ! ax) (map vdata ws)) = sum_list (map (dim_len d) frames)"
    by (simp only: map_map comp_def)
  have wd: "dims w = dims (hd ws)" and wv: "vdata w = nd_concat ax (map vdata ws)"
    using c(4,5) by (simp_all add: ax_def)
  have a1: "d \<in> set (dims w)" using dx wd by simp
  have a2: "regular (vdata w)" using cj wv by simp
  have a3: "index_of d (dims w) < length (nd_shape (vdata w))"
    using cj unfolding wv wd ax_def [symmetric] by blast
  have a4: "var_len d w = sum_list (map (dim_len d) frames)"
    unfolding var_len_def wv wd ax_def [symmetric] using cj sum by presburger
  have b: "dims w = dims v
      \<and> slices (index_of d (dims v)) (vdata w)
         = concat (map (\<lambda>f. slices (index_of d (dims v)) (vdata (the (map_of (variables f) k)))) frames)"
    if sch: "\<forall>f\<in>set frames. \<exists>u. map_of (variables f) k = Some u \<and> dims u = dims v"
      and dv: "d \<in> set (dims v)" for v
  proof -
    have rel3: "list_all2 (\<lambda>f q. q = the (map_of (variables f) k) \<and> dims q = dims v) frames ws"
    proof (rule list_all2_mono_set [OF rel])
      fix f q assume f: "f \<in> set frames"
        and "\<exists>u. map_of (variables f) k = Some u \<and> q = with_dim d (dim_len d f) u"
      then obtain u where u: "map_of (variables f) k = Some u" "q = with_dim d (dim_len d f) u"
        by blast
      from f sch obtain u' where "map_of (variables f) k = Some u'" "dims u' = dims v"
        by blast
      with u(1) have "dims u = dims v" by simp
      with dv u show "q = the (map_of (variables f) k) \<and> dims q = dims v"
        by (simp add: with_dim_def)
    qed
    have "\<forall>q\<in>set ws. dims q = dims v"
      by (rule list_all2_right) (rule list_all2_mono [OF rel3], simp)
    with c(1) have xv: "dims (hd ws) = dims v"
      by simp
    have "map (\<lambda>q. slices ax (vdata q)) ws
        = map (\<lambda>f. slices ax (vdata (the (map_of (variables f) k)))) frames"
      by (rule map_rel) (rule list_all2_mono [OF rel3], simp)
    then have m: "map (slices ax) (map vdata ws)
        = map (\<lambda>f. slices ax (vdata (the (map_of (variables f) k)))) frames"
      by (simp only: map_map comp_def)
    have axv: "ax = index_of d (dims v)"
      by (simp add: ax_def xv)
    have "slices ax (vdata w) = concat (map (slices ax) (map vdata ws))"
      using cj unfolding wv by blast
    then have "slices ax (vdata w)
        = concat (map (\<lambda>f. slices ax (vdata (the (map_of (variables f) k)))) frames)"
      by (simp only: m)
    then show ?thesis
      using wd xv by (simp add: axv)
  qed
  show ?thesis
    using p a1 a2 a3 a4 b by blast
qed

lemma dim_len_eq:
  assumes "\<forall>(k, v)\<in>set (variables ds). d \<in> set (dims v) \<longrightarrow> var_len d v = n"
    and "\<exists>(k, v)\<in>set (variables ds). d \<in> set (dims v)"
  shows "dim_len d ds = n"
proof (cases "filter (\<lambda>(k, v). d \<in> set (dims v)) (variables ds)")
  case Nil
  with assms(2) show ?thesis by (auto simp: filter_empty_conv)
next
  case (Cons p ps)
  obtain k v where p: "p = (k, v)" by (cases p)
  have "(k, v) \<in> set (filter (\<lambda>(k, v). d \<in> set (dims v)) (variables ds))"
    by (simp add: Cons p)
  then have "(k, v) \<in> set (variables ds)" "d \<in> set (dims v)"
    by simp_all
  with assms(1) have "var_len d v = n" by blast
  moreover have "dim_len d ds = var_len d v"
    unfolding dim_len_def by (simp only: Cons p list.case prod.case)
  ultimately show ?thesis by simp
qed

lemma same_schema_lookup:
  assumes "same_schema d f0 f" "(k, v) \<in> set (variables f0)"
  shows "\<exists>u. map_of (variables f) k = Some u \<and> dims u = dims v"
  using assms by (auto simp: same_schema_def list_all_iff split: option.splits)

lemma distinct_partition:
  assumes "distinct (map fst xs)"
  shows "distinct (map fst (filter (\<lambda>x. \<not> P x) xs @ filter P xs))"
proof -
  from assms have inj: "inj_on fst (set xs)" by (simp add: distinct_map)
  have "fst ` set (filter (\<lambda>x. \<not> P x) xs) \<inter> fst ` set (filter P xs) = {}"
  proof (rule ccontr)
    assume "fst ` set (filter (\<lambda>x. \<not> P x) xs) \<inter> fst ` set (filter P xs) \<noteq> {}"
    then obtain a b where "a \<in> set xs" "\<not> P a" "b \<in> set xs" "P b" "fst a = fst b"
      by auto
    with inj show False by (auto dest: inj_onD)
  qed
  with assms show ?thesis
    by (simp add: distinct_map_filter)
qed

lemma join_var_key: "join_var d frames k = Inr p \<Longrightarrow> fst p = k"
  by (auto dest: join_var_Inr)

text \<open>The structure of a concatenation of well-formed frames.\<close>

lemma xr_concat_struct:
  assumes xc: "xr_concat concat_mixed frames d = Inr c"
    and os: "one_schema d frames"
    and dist: "distinct (var_names (hd frames))"
    and sl: "\<forall>f\<in>set frames. same_length d f"
    and sd: "same_dtypes frames"
  shows "frames \<noteq> []"
    and "distinct (var_names c)"
    and "\<And>k w. (k, w) \<in> set (variables c) \<Longrightarrow> d \<in> set (dims w) \<Longrightarrow>
           regular (vdata w) \<and> index_of d (dims w) < length (nd_shape (vdata w))
           \<and> var_len d w = sum_list (map (dim_len d) frames)"
    and "\<And>k v. (k, v) \<in> set (variables (hd frames)) \<Longrightarrow> d \<in> set (dims v) \<or> k = d \<Longrightarrow>
           \<exists>w. map_of (variables c) k = Some w \<and> (k, w) \<in> set (variables c) \<and> d \<in> set (dims w)
             \<and> (d \<in> set (dims v) \<longrightarrow> dims w = dims v
             \<and> slices (index_of d (dims v)) (vdata w)
               = concat (map (\<lambda>f. slices (index_of d (dims v)) (vdata (the (map_of (variables f) k)))) frames))"
    and "\<And>k v f. (k, v) \<in> set (variables (hd frames)) \<Longrightarrow> f \<in> set frames \<Longrightarrow>
           \<exists>u. map_of (variables f) k = Some u \<and> dims u = dims v"
proof -
  from xr_concat_Inr [OF xc os] obtain f0 rest joined where fr: "frames = f0 # rest"
    and ss: "list_all (same_schema d f0) rest"
    and la: "list_all2 (\<lambda>(k, v) p. join_var d frames k = Inr p)
           (filter (\<lambda>(k, v). concat_over d frames k v) (variables f0)) joined"
    and vc: "variables c = filter (\<lambda>(k, v). \<not> concat_over d frames k v) (variables f0) @ joined"
    by blast
  let ?co = "filter (\<lambda>(k, v). concat_over d frames k v) (variables f0)"
  let ?fx = "filter (\<lambda>(k, v). \<not> concat_over d frames k v) (variables f0)"
  from dist fr have d0: "distinct (map fst (variables f0))"
    by (simp add: var_names_def)
  show "frames \<noteq> []" by (simp add: fr)
  have uni: "one_kind (column_cells frames k)" if "(k, v) \<in> set (variables f0)" for k v
    using sd that by (force simp: same_dtypes_def list_all_iff var_names_def fr)
  have schema: "\<exists>u. map_of (variables f) k = Some u \<and> dims u = dims v"
    if kv0: "(k, v) \<in> set (variables f0)" and f: "f \<in> set frames" for k v f
  proof -
    from f consider "f = f0" | "f \<in> set rest" by (auto simp: fr)
    then show ?thesis
    proof cases
      case 1
      with kv0 d0 show ?thesis by simp
    next
      case 2
      with ss have "same_schema d f0 f" by (simp add: list_all_iff)
      from same_schema_lookup [OF this kv0] show ?thesis .
    qed
  qed
  show "\<exists>u. map_of (variables f) k = Some u \<and> dims u = dims v"
    if "(k, v) \<in> set (variables (hd frames))" "f \<in> set frames" for k v f
    using that schema by (simp add: fr)
  have keys: "list_all2 (\<lambda>x p. fst p = fst x) ?co joined"
    by (rule list_all2_mono [OF la]) (auto dest: join_var_key)
  then have mk: "map fst joined = map fst ?co"
    by (rule map_rel)
  have "distinct (map fst (?fx @ ?co))"
    using distinct_partition [OF d0, of "\<lambda>(k, v). concat_over d frames k v"]
    by (simp add: case_prod_unfold)
  then have dc: "distinct (map fst (?fx @ joined))"
    by (simp add: mk)
  then show "distinct (var_names c)"
    by (simp only: var_names_def vc)
  show "regular (vdata w) \<and> index_of d (dims w) < length (nd_shape (vdata w))
           \<and> var_len d w = sum_list (map (dim_len d) frames)"
    if kw: "(k, w) \<in> set (variables c)" and dw: "d \<in> set (dims w)" for k w
  proof -
    from kw vc have "(k, w) \<in> set ?fx \<or> (k, w) \<in> set joined" by simp
    then show ?thesis
    proof
      assume "(k, w) \<in> set ?fx"
      with dw show ?thesis by (simp add: concat_over_def)
    next
      assume "(k, w) \<in> set joined"
      from list_all2_right_ex [OF la this] obtain k' v' where k': "(k', v') \<in> set (variables f0)"
        and "join_var d frames k' = Inr (k, w)"
        by auto
      from joined_var [OF sl this(2) uni [OF k']] show ?thesis by auto
    qed
  qed
  show "\<exists>w. map_of (variables c) k = Some w \<and> (k, w) \<in> set (variables c) \<and> d \<in> set (dims w)
             \<and> (d \<in> set (dims v) \<longrightarrow> dims w = dims v
             \<and> slices (index_of d (dims v)) (vdata w)
               = concat (map (\<lambda>f. slices (index_of d (dims v)) (vdata (the (map_of (variables f) k)))) frames))"
    if kv: "(k, v) \<in> set (variables (hd frames))" and dv: "d \<in> set (dims v) \<or> k = d" for k v
  proof -
    from kv fr have kv0: "(k, v) \<in> set (variables f0)" by simp
    with dv have "(k, v) \<in> set ?co" by (auto simp: concat_over_def)
    from list_all2_left_ex [OF la this] obtain p where pj: "p \<in> set joined"
      and jv: "join_var d frames k = Inr p"
      by auto
    from joined_var [OF sl jv uni [OF kv0]] obtain w where w: "p = (k, w)" "d \<in> set (dims w)"
      and sch: "\<And>v :: variable. (\<forall>f\<in>set frames. \<exists>u. map_of (variables f) k = Some u \<and> dims u = dims v)
            \<Longrightarrow> d \<in> set (dims v) \<Longrightarrow> dims w = dims v
            \<and> slices (index_of d (dims v)) (vdata w)
              = concat (map (\<lambda>f. slices (index_of d (dims v)) (vdata (the (map_of (variables f) k)))) frames)"
      by blast
    from pj w have mem: "(k, w) \<in> set (variables c)" by (simp add: vc)
    with dc have look: "map_of (variables c) k = Some w"
      by (simp only: vc map_of_is_SomeI)
    have all: "\<forall>f\<in>set frames. \<exists>u. map_of (variables f) k = Some u \<and> dims u = dims v"
      using schema [OF kv0] by blast
    from sch [of v] all look mem w(2) show ?thesis by blast
  qed
qed

lemma same_length_var:
  "same_length d f \<Longrightarrow> (k, u) \<in> set (variables f) \<Longrightarrow> d \<in> set (dims u) \<Longrightarrow> var_len d u = dim_len d f"
  by (auto simp: same_length_def list_all_iff)

lemma slices_nth: "i < nd_shape a ! k \<Longrightarrow> slices k a ! i = nd_take k [i] a"
  by (simp add: slices_def)

lemma length_slices: "length (slices k a) = nd_shape a ! k"
  by (simp add: slices_def)

lemma xr_concat_rows:
  assumes xc: "xr_concat concat_mixed frames d = Inr c"
    and os: "one_schema d frames"
    and wf: "\<forall>f\<in>set frames. well_formed d f"
    and sd: "same_dtypes frames"
    and names: "names = obs_vars d (hd frames)" "names \<noteq> []"
  shows "obs_rows d names c = concat (map (obs_rows d names) frames)"
    and "aligned d c" and "distinct (var_names c)" and "set names \<subseteq> set (obs_vars d c)"
proof -
  from xr_concat_nonempty [OF xc] have ne: "frames \<noteq> []" .
  then have h: "hd frames \<in> set frames" by simp
  from wf h have dist: "distinct (var_names (hd frames))"
    by (simp add: well_formed_def)
  from wf have sl: "\<forall>f\<in>set frames. same_length d f"
    by (simp add: well_formed_def)
  note st = xr_concat_struct [OF xc os dist sl sd]
  define N where "N = sum_list (map (dim_len d) frames)"
  define ax where "ax k = index_of d (dims (the (map_of (variables (hd frames)) k)))" for k
  define S where "S f k = slices (ax k) (vdata (the (map_of (variables f) k)))" for f :: dataset and k
  have nm: "\<exists>v. map_of (variables (hd frames)) k = Some v \<and> (k, v) \<in> set (variables (hd frames))
       \<and> d \<in> set (dims v)" if "k \<in> set names" for k
    using that obs_vars_lookup [OF dist] by (simp add: names)
  have cvar: "\<exists>w. map_of (variables c) k = Some w \<and> (k, w) \<in> set (variables c) \<and> d \<in> set (dims w)
       \<and> index_of d (dims w) = ax k \<and> nd_shape (vdata w) ! ax k = N
       \<and> slices (ax k) (vdata w) = concat (map (\<lambda>f. S f k) frames)" if k: "k \<in> set names" for k
  proof -
    from nm [OF k] obtain v where v: "map_of (variables (hd frames)) k = Some v"
      "(k, v) \<in> set (variables (hd frames))" "d \<in> set (dims v)" by blast
    from st(4) [OF v(2)] v(3) obtain w where w: "map_of (variables c) k = Some w"
      "(k, w) \<in> set (variables c)" "d \<in> set (dims w)" "dims w = dims v"
      "slices (index_of d (dims v)) (vdata w)
         = concat (map (\<lambda>f. slices (index_of d (dims v)) (vdata (the (map_of (variables f) k)))) frames)"
      by blast
    have axk: "ax k = index_of d (dims v)" by (simp add: ax_def v(1))
    from st(3) [OF w(2,3)] have "var_len d w = N" by (simp add: N_def)
    then have "nd_shape (vdata w) ! ax k = N" by (simp add: var_len_def w(4) axk)
    with w axk show ?thesis unfolding S_def by auto
  qed
  from names(2) obtain k0 where k0: "k0 \<in> set names" by (cases names) auto
  from cvar [OF k0] have ex: "\<exists>(k, v)\<in>set (variables c). d \<in> set (dims v)" by blast
  have "\<forall>(k, v)\<in>set (variables c). d \<in> set (dims v) \<longrightarrow> var_len d v = N"
    using st(3) by (auto simp: N_def)
  from dim_len_eq [OF this ex] have dl: "dim_len d c = N" .
  show "aligned d c"
    unfolding aligned_def list_all_iff using st(3) dl by (auto simp: N_def)
  show "distinct (var_names c)" by (rule st(2))
  show "set names \<subseteq> set (obs_vars d c)"
  proof
    fix k assume "k \<in> set names"
    from cvar [OF this] obtain w where "(k, w) \<in> set (variables c)" "d \<in> set (dims w)" by blast
    then show "k \<in> set (obs_vars d c)" by (force simp: obs_vars_def)
  qed
  have fvar: "\<exists>u. map_of (variables f) k = Some u \<and> index_of d (dims u) = ax k
      \<and> nd_shape (vdata u) ! ax k = dim_len d f" if k: "k \<in> set names" and f: "f \<in> set frames" for k f
  proof -
    from nm [OF k] obtain v where v: "map_of (variables (hd frames)) k = Some v"
      "(k, v) \<in> set (variables (hd frames))" "d \<in> set (dims v)" by blast
    from st(5) [OF v(2) f] obtain u where u: "map_of (variables f) k = Some u" "dims u = dims v"
      by blast
    have axk: "ax k = index_of d (dims v)" by (simp add: ax_def v(1))
    from u(1) have "(k, u) \<in> set (variables f)" by (rule map_of_SomeD)
    moreover from v(3) u(2) have "d \<in> set (dims u)" by simp
    moreover from sl f have "same_length d f" by blast
    ultimately have "var_len d u = dim_len d f"
      by (intro same_length_var)
    then show ?thesis using u axk by (simp add: var_len_def)
  qed
  have lens: "\<forall>f\<in>set frames. \<forall>k\<in>set names. length (S f k) = dim_len d f"
  proof (intro ballI)
    fix f k assume "f \<in> set frames" "k \<in> set names"
    from fvar [OF this(2,1)] show "length (S f k) = dim_len d f"
      by (auto simp: S_def length_slices)
  qed
  have rowc: "obs_row d names c i = map (\<lambda>k. (k, Some (concat (map (\<lambda>f. S f k) frames) ! i))) names"
    if i: "i < N" for i
    unfolding obs_row_def
  proof (rule map_cong [OF refl])
    fix k assume "k \<in> set names"
    from cvar [OF this] obtain w where w: "map_of (variables c) k = Some w"
      "index_of d (dims w) = ax k" "nd_shape (vdata w) ! ax k = N"
      "slices (ax k) (vdata w) = concat (map (\<lambda>f. S f k) frames)" by blast
    from i w(3) have "slices (ax k) (vdata w) ! i = nd_take (ax k) [i] (vdata w)"
      by (simp add: slices_nth)
    then show "(k, map_option (\<lambda>v. nd_take (index_of d (dims v)) [i] (vdata v)) (map_of (variables c) k))
        = (k, Some (concat (map (\<lambda>f. S f k) frames) ! i))"
      by (simp add: w)
  qed
  have rowf: "obs_row d names f i = map (\<lambda>k. (k, Some (S f k ! i))) names"
    if i: "i < dim_len d f" and f: "f \<in> set frames" for i f
    unfolding obs_row_def
  proof (rule map_cong [OF refl])
    fix k assume "k \<in> set names"
    from fvar [OF this f] obtain u where u: "map_of (variables f) k = Some u"
      "index_of d (dims u) = ax k" "nd_shape (vdata u) ! ax k = dim_len d f" by blast
    from i u(3) have "slices (ax k) (vdata u) ! i = nd_take (ax k) [i] (vdata u)"
      by (simp add: slices_nth)
    then show "(k, map_option (\<lambda>v. nd_take (index_of d (dims v)) [i] (vdata v)) (map_of (variables f) k))
        = (k, Some (S f k ! i))"
      by (simp add: u S_def)
  qed
  have "obs_rows d names c = map (obs_row d names c) [0..<N]"
    by (simp add: obs_rows_def dl)
  also have "\<dots> = map (\<lambda>i. map (\<lambda>k. (k, Some (concat (map (\<lambda>f. S f k) frames) ! i))) names) [0..<N]"
    by (rule map_cong [OF refl]) (simp add: rowc)
  also have "\<dots> = concat (map (\<lambda>f. map (\<lambda>i. map (\<lambda>k. (k, Some (S f k ! i))) names) [0..<dim_len d f]) frames)"
    unfolding N_def by (rule rows_concat [OF lens, of "\<lambda>k x. (k, Some x)"])
  also have "\<dots> = concat (map (obs_rows d names) frames)"
  proof -
    have "map (\<lambda>f. map (\<lambda>i. map (\<lambda>k. (k, Some (S f k ! i))) names) [0..<dim_len d f]) frames
        = map (obs_rows d names) frames"
      unfolding obs_rows_def
      by (intro map_cong refl) (simp add: rowf)
    then show ?thesis by (simp only:)
  qed
  finally show "obs_rows d names c = concat (map (obs_rows d names) frames)" .
qed

section \<open>Properties of the dataset merger\<close>

text \<open>The time coordinate is an array of one dimension whose values do not decrease.\<close>

definition time_sorted :: "dataset \<Rightarrow> bool" where
  "time_sorted ds =
     (\<exists>v cs. map_of (variables ds) ''time'' = Some v \<and> cells_of (vdata v) = Some cs
        \<and> sorted (map cell_key cs))"

text \<open>The values of the time coordinate, one for each observation.\<close>

definition time_values :: "dataset \<Rightarrow> cell list" where
  "time_values ds = (case index_cells ''time'' ds of None \<Rightarrow> [] | Some cs \<Rightarrow> cs)"

text \<open>The per-file datasets that \<^verbatim>\<open>m2m_collect\<close> builds before it merges them.\<close>

definition collected ::
  "regex_library \<Rightarrow> (string \<Rightarrow> anchor list) \<Rightarrow> (string \<Rightarrow> error + dataset) \<Rightarrow> json \<Rightarrow> string
     \<Rightarrow> dataset list \<Rightarrow> bool"
where
  "collected re_compile pages open_dataset data tag frames =
     (\<exists>urls url files. getitem_str data ''allURLs'' = Inr urls \<and> getitem_nat urls 0 = Inr (JStr url)
        \<and> list_files re_compile pages url tag = Inr files
        \<and> sequence (map (process_file open_dataset) files) = Inr frames)"

lemma m2m_collect_Inr:
  assumes "m2m_collect re_compile pages open_dataset concat_mixed data tag = Inr m"
  shows "\<exists>frames c. collected re_compile pages open_dataset data tag frames
           \<and> xr_concat concat_mixed frames ''time'' = Inr c \<and> sortby ''time'' c = Inr m"
proof -
  from assms obtain urls u where u: "getitem_str data ''allURLs'' = Inr urls" "getitem_nat urls 0 = Inr u"
    and rest: "(case u of
         JStr url \<Rightarrow>
           and_then (list_files re_compile pages url tag) (\<lambda>files.
           and_then (sequence (map (process_file open_dataset) files)) (\<lambda>frames.
           and_then (xr_concat concat_mixed frames ''time'') (\<lambda>m2m.
           sortby ''time'' m2m)))
       | _ \<Rightarrow> Inl TypeError) = Inr m"
    unfolding m2m_collect_def and_then_Inr by blast
  from rest obtain url where url: "u = JStr url"
    by (cases u) simp_all
  from rest obtain files frames c where "list_files re_compile pages url tag = Inr files"
    "sequence (map (process_file open_dataset) files) = Inr frames"
    "xr_concat concat_mixed frames ''time'' = Inr c" "sortby ''time'' c = Inr m"
    unfolding url json.case and_then_Inr by blast
  with u url show ?thesis
    unfolding collected_def by blast
qed

lemma collected_frames:
  assumes "collected re_compile pages open_dataset data tag frames" "f \<in> set frames"
  shows "\<exists>cf. process_file open_dataset cf = Inr f"
proof -
  from assms(1) obtain files where "sequence (map (process_file open_dataset) files) = Inr frames"
    by (auto simp: collected_def)
  from sequence_Inr [OF this] have "list_all2 (\<lambda>cf f. process_file open_dataset cf = Inr f) files frames"
    by (simp add: list_all2_map1)
  from list_all2_right_ex [OF this assms(2)] show ?thesis by blast
qed

lemma process_file_time:
  assumes "process_file open_dataset cf = Inr f"
  shows "\<exists>v cs. map_of (variables f) ''time'' = Some v \<and> dims v = [''time'']
           \<and> cells_of (vdata v) = Some cs"
proof -
  from assms obtain fl ds0 ds1 ds2 ds3 where
    sw: "swap_dims ''obs'' ''time'' ds0 = Inr ds1"
    and dr: "drop_vars bookkeeping ds1 = Inr ds2"
    and so: "sortby ''time'' ds2 = Inr ds3"
    and ds: "f = ds3\<lparr>attrs := file_attrs (attrs ds3)\<rparr>"
    by (auto simp: process_file_def and_then_Inr split: option.splits)
  from sortby_Inr [OF so] obtain d idx where ds3: "ds3 = isel d idx ds2"
    by blast
  have look: "map_of (variables f) k = map_option (isel_var d idx) (map_of (variables ds2) k)" for k
    by (simp add: ds ds3 isel_simps)
  from swap_dims_Inr(4) [OF sw] obtain v
    where v: "map_of (variables ds0) ''time'' = Some v" "dims v = [''obs'']"
    by blast
  have "map_of (variables ds2) ''time'' = Some (v\<lparr>dims := [''time'']\<rparr>)"
    unfolding drop_vars_Inr(1) [OF dr] swap_dims_Inr(1) [OF sw] map_of_filter_keys map_of_map_vars
    using v by (simp add: bookkeeping_def)
  then have a: "\<exists>v. map_of (variables f) ''time'' = Some v \<and> dims v = [''time'']"
    unfolding look by (simp add: dims_isel_var)
  from sortby_sorted [OF so] obtain w cs where
    "map_of (variables ds3) ''time'' = Some w" "cells_of (vdata w) = Some cs"
    by blast
  then have "map_of (variables f) ''time'' = Some w \<and> cells_of (vdata w) = Some cs"
    by (simp add: ds)
  with a show ?thesis by auto
qed

lemma process_file_index:
  assumes "process_file open_dataset cf = Inr f"
  shows "index_cells ''time'' f = Some (time_values f)"
  using process_file_time [OF assms] by (auto simp: index_cells_def time_values_def)

subsection \<open>The index coordinate of a merge\<close>

lemma cells_of_iff: "cells_of a = Some cs \<longleftrightarrow> a = Arr (map Cell cs)"
proof (cases a)
  case (Cell c)
  then show ?thesis by simp
next
  case (Arr xs)
  have "those (map as_cell xs) = Some cs \<longleftrightarrow> xs = map Cell cs"
  proof (induction xs arbitrary: cs)
    case Nil
    then show ?case by auto
  next
    case (Cons x xs)
    then show ?case
      by (cases x) (auto split: option.splits)
  qed
  with Arr show ?thesis by simp
qed

lemma cells_of_cells: "cells_of (Arr (map Cell cs)) = Some cs"
  by (simp only: cells_of_iff)

lemma cells_of_cells_map: "cells_of (Arr (map (Cell \<circ> f) xs)) = Some (map f xs)"
  using cells_of_cells [of "map f xs"] by (simp del: cells_of.simps)

lemma those_map_Some: "list_all2 (\<lambda>x y. h x = Some y) xs ys \<Longrightarrow> those (map h xs) = Some ys"
  by (induction rule: list_all2_induct) auto

lemma list_all2_join:
  assumes "list_all2 P xs ys" "list_all2 Q xs zs" "\<And>x y z. P x y \<Longrightarrow> Q x z \<Longrightarrow> R y z"
  shows "list_all2 R ys zs"
  using assms by (auto simp: list_all2_conv_all_nth)

lemma nd_concat_cells:
  assumes "list_all2 (\<lambda>a cs. a = Arr (map Cell cs)) as css" "as \<noteq> []"
  shows "nd_concat 0 as = Arr (map Cell (concat css))"
  using assms
proof (induction rule: list_all2_induct)
  case Nil
  then show ?case by simp
next
  case (Cons a as cs css)
  show ?case
  proof (cases as)
    case Nil
    with Cons show ?thesis by simp
  next
    case (Cons b rest)
    with Cons.IH have "nd_concat 0 as = Arr (map Cell (concat css))" by simp
    with Cons Cons.hyps(1) show ?thesis by simp
  qed
qed

lemma with_dim_present:
  assumes "length lens = length vs" "\<forall>v\<in>set vs. d \<in> set (dims v)"
  shows "map (\<lambda>(v, n). with_dim d n v) (zip vs lens) = vs"
  using assms by (intro nth_equalityI) (auto simp: with_dim_def)

lemma map_of_unique:
  assumes "(k, w) \<in> set xs" "\<And>w'. (k, w') \<in> set xs \<Longrightarrow> w' = w"
  shows "map_of xs k = Some w"
proof (cases "map_of xs k")
  case None
  with assms(1) show ?thesis
    by (force simp: map_of_eq_None_iff)
next
  case (Some w')
  from map_of_SomeD [OF this] assms(2) Some show ?thesis by simp
qed

text \<open>The variable \<open>d\<close> of frames that all have it as an index coordinate, joined.\<close>

lemma join_var_index:
  assumes jv: "join_var d frames d = Inr p"
    and ix: "list_all2 (\<lambda>f cs. index_cells d f = Some cs) frames css"
  shows "\<exists>w. p = (d, w) \<and> dims w = [d] \<and> vdata w = Arr (map Cell (promoted (concat css)))"
proof -
  from join_var_Inr [OF jv] obtain vs w where p: "p = (d, w)"
    and vs: "list_all2 (\<lambda>f v. map_of (variables f) d = Some v) frames vs"
    and cv: "concat_vars d (map (dim_len d) frames) vs = Inr w"
    by blast
  have rel: "list_all2 (\<lambda>v cs. dims v = [d] \<and> vdata v = Arr (map Cell cs)) vs css"
  proof (rule list_all2_join [OF vs ix])
    fix f v cs assume "map_of (variables f) d = Some v" "index_cells d f = Some cs"
    then show "dims v = [d] \<and> vdata v = Arr (map Cell cs)"
      by (auto simp: index_cells_def cells_of_iff split: if_splits)
  qed
  have dv: "\<forall>v\<in>set vs. dims v = [d]"
    using rel by (auto simp: list_all2_conv_all_nth in_set_conv_nth)
  from vs have "length (map (dim_len d) frames) = length vs"
    by (simp add: list_all2_lengthD)
  then have pieces: "map (\<lambda>(v, n). with_dim d n v) (zip vs (map (dim_len d) frames)) = vs"
    using dv by (intro with_dim_present) auto
  have cells: "map (nd_cells \<circ> vdata) vs = css"
    using rel by (intro nth_equalityI) (auto simp: list_all2_conv_all_nth comp_def)
  define f where "f = cast (common_kind (concat css))"
  have rel': "list_all2 (\<lambda>a cs. a = Arr (map Cell cs)) (map (nd_map f) (map vdata vs)) (map (map f) css)"
    using rel by (auto simp: list_all2_conv_all_nth comp_def)
  from cv obtain v0 vs' where v0: "vs = v0 # vs'"
    unfolding concat_vars_def pieces by (cases vs) auto
  from dv have d0: "dims v0 = [d]" by (simp add: v0)
  from cv have "w = \<lparr>dims = dims v0,
                    vdata = nd_concat (index_of d (dims v0))
                      (map (nd_map (cast (common_kind (concat (map (nd_cells \<circ> vdata) vs)))))
                         (map vdata vs)),
                    vattrs = vattrs v0\<rparr>"
    unfolding concat_vars_def pieces unfolding v0 by (auto split: if_splits)
  then have w: "dims w = [d]" "vdata w = nd_concat 0 (map (nd_map f) (map vdata vs))"
    by (simp_all add: d0 cells f_def)
  have "map (nd_map f) (map vdata vs) \<noteq> []"
    by (simp add: v0)
  from nd_concat_cells [OF rel' this]
  have "vdata w = Arr (map Cell (map f (concat css)))"
    by (simp add: w map_concat)
  with p w(1) show ?thesis
    by (simp add: promoted_def f_def)
qed

text \<open>
  The time coordinate of a merge: the time coordinates of the frames, one after the
  other, whether the frames are of one schema or not.
\<close>

lemma xr_concat_index:
  assumes xc: "xr_concat concat_mixed frames d = Inr c"
    and ix: "list_all2 (\<lambda>f cs. index_cells d f = Some cs) frames css"
  shows "index_cells d c = Some (promoted (concat css))"
proof (cases "one_schema d frames")
  case False
  from xr_concat_nonempty [OF xc] obtain f0 rest where fr: "frames = f0 # rest"
    by (cases frames) auto
  from False xc obtain c0 where c: "c = join_index d frames c0"
    by (auto simp: xr_concat_def fr one_schema_def and_then_Inr)
  have "those (map (index_cells d) frames) = Some css"
    by (rule those_map_Some [OF ix])
  then show ?thesis
    by (simp add: c join_index_def index_cells_def update_conv' cells_of_cells del: cells_of.simps)
next
  case True
  from xr_concat_Inr [OF xc True] obtain f0 rest joined where fr: "frames = f0 # rest"
    and la: "list_all2 (\<lambda>(k, v) p. join_var d frames k = Inr p)
           (filter (\<lambda>(k, v). concat_over d frames k v) (variables f0)) joined"
    and vc: "variables c = filter (\<lambda>(k, v). \<not> concat_over d frames k v) (variables f0) @ joined"
    by blast
  from ix fr obtain cs0 where "index_cells d f0 = Some cs0"
    by (auto simp: list_all2_Cons1)
  then obtain v0 where "map_of (variables f0) d = Some v0"
    by (auto simp: index_cells_def split: option.splits)
  then have "(d, v0) \<in> set (variables f0)"
    by (rule map_of_SomeD)
  then have "(d, v0) \<in> set (filter (\<lambda>(k, v). concat_over d frames k v) (variables f0))"
    by (simp add: concat_over_def)
  from list_all2_left_ex [OF la this] obtain p where pj: "p \<in> set joined"
    and jv: "join_var d frames d = Inr p"
    by auto
  from join_var_index [OF jv ix] obtain w where w: "p = (d, w)" "dims w = [d]"
    "vdata w = Arr (map Cell (promoted (concat css)))"
    by blast
  have uniq: "w' = w" if "(d, w') \<in> set joined" for w'
  proof -
    from list_all2_right_ex [OF la that] obtain k' where "join_var d frames k' = Inr (d, w')"
      by auto
    moreover from join_var_key [OF this] have "k' = d" by simp
    ultimately show ?thesis using jv w(1) by simp
  qed
  from pj w(1) have "(d, w) \<in> set joined" by simp
  from map_of_unique [OF this uniq] have mj: "map_of joined d = Some w" .
  have "map_of (filter (\<lambda>(k, v). \<not> concat_over d frames k v) (variables f0)) d = None"
    by (auto simp: map_of_eq_None_iff concat_over_def)
  with mj have "map_of (variables c) d = Some w"
    by (simp add: vc map_add_def)
  with w(2,3) show ?thesis
    by (simp add: index_cells_def cells_of_cells cells_of_cells_map del: cells_of.simps)
qed

lemma sortby_index:
  assumes so: "sortby d ds = Inr m" and ix: "index_cells d ds = Some cs"
  shows "\<exists>tm. index_cells d m = Some tm \<and> sorted (map cell_key tm) \<and> mset tm = mset cs"
proof -
  from ix obtain v where v: "map_of (variables ds) d = Some v" "dims v = [d]"
    "vdata v = Arr (map Cell cs)"
    by (auto simp: index_cells_def cells_of_iff split: option.splits if_splits)
  define idx where "idx = argsort (map cell_key cs)"
  have "cells_of (vdata v) = Some cs"
    by (simp only: v(3) cells_of_cells)
  with sortby_Inr [OF so] v(1,2) have m: "m = isel d idx ds"
    by (auto simp: idx_def)
  have b: "\<forall>i\<in>set idx. i < length cs"
    using argsort_bound [of _ "map cell_key cs"] by (auto simp: idx_def)
  then have take: "map (\<lambda>i. map Cell cs ! i) idx = map Cell (map (\<lambda>i. cs ! i) idx)"
    by simp
  have "map_of (variables m) d = Some (isel_var d idx v)"
    by (simp add: m isel_simps v)
  moreover have "dims (isel_var d idx v) = [d]"
    by (simp add: dims_isel_var v)
  moreover have "vdata (isel_var d idx v) = Arr (map Cell (map (\<lambda>i. cs ! i) idx))"
    by (simp add: isel_var_def v take)
  ultimately have i: "index_cells d m = Some (map (\<lambda>i. cs ! i) idx)"
    by (simp add: index_cells_def cells_of_cells cells_of_cells_map del: cells_of.simps)
  have "map cell_key (map (\<lambda>i. cs ! i) idx) = map (\<lambda>i. map cell_key cs ! i) idx"
    using b by simp
  then have s: "sorted (map cell_key (map (\<lambda>i. cs ! i) idx))"
    by (simp only: idx_def argsort_sorted)
  have "mset idx = mset [0..<length cs]"
    by (simp add: idx_def argsort_perm)
  from mset_map_perm [OF this] i s show ?thesis by blast
qed

lemma promoted_one_kind: "one_kind cs \<Longrightarrow> promoted cs = cs"
  by (simp add: promoted_def map_idI cast_same)

text \<open>
  C1. When \<^verbatim>\<open>m2m_collect\<close> returns a dataset, it has merged a non-empty list of
  per-file datasets, each with a time coordinate, and whatever the regex library and
  \<^verbatim>\<open>xr.concat\<close> on frames of mixed schema do:

  \<^item> the time coordinate of the result does not decrease;

  \<^item> the time coordinate of the result holds the times of all the observations of all
    the files, each as often as it occurs in them, in their common type (as they are,
    when they are of one type, as timestamps are), so that the result has as many
    observations as the files have together: none is lost and none is removed as a
    duplicate;

  \<^item> where the per-file datasets are well-formed, of one schema and with one type of
    values for each variable, the observations of the result, with the values of all
    their variables, are those of all the files together, each as often as it occurs
    in them.
\<close>

theorem m2m_collect_merged:
  assumes "m2m_collect re_compile pages open_dataset concat_mixed data tag = Inr m"
  shows "\<exists>frames. collected re_compile pages open_dataset data tag frames \<and> frames \<noteq> []
     \<and> list_all (\<lambda>f. index_cells ''time'' f = Some (time_values f)) frames
     \<and> index_cells ''time'' m = Some (time_values m)
     \<and> time_sorted m
     \<and> sorted (map cell_key (time_values m))
     \<and> mset (time_values m) = mset (promoted (concat (map time_values frames)))
     \<and> (one_kind (concat (map time_values frames)) \<longrightarrow>
          mset (time_values m) = mset (concat (map time_values frames)))
     \<and> length (time_values m) = sum_list (map (\<lambda>f. length (time_values f)) frames)
     \<and> (list_all (well_formed ''time'') frames \<and> one_schema ''time'' frames \<and> same_dtypes frames \<longrightarrow>
          mset (obs_rows ''time'' (obs_vars ''time'' (hd frames)) m)
            = mset (concat (map (obs_rows ''time'' (obs_vars ''time'' (hd frames))) frames)))"
proof -
  from m2m_collect_Inr [OF assms] obtain frames c where
    col: "collected re_compile pages open_dataset data tag frames"
    and xc: "xr_concat concat_mixed frames ''time'' = Inr c" and so: "sortby ''time'' c = Inr m"
    by blast
  from xr_concat_nonempty [OF xc] have ne: "frames \<noteq> []" .
  have fi: "index_cells ''time'' f = Some (time_values f)" if "f \<in> set frames" for f
    using collected_frames [OF col that] process_file_index by blast
  then have la: "list_all (\<lambda>f. index_cells ''time'' f = Some (time_values f)) frames"
    by (simp add: list_all_iff)
  from fi have ix: "list_all2 (\<lambda>f cs. index_cells ''time'' f = Some cs) frames (map time_values frames)"
    by (simp add: list_all2_map2 list_all2_same)
  let ?all = "concat (map time_values frames)"
  from xr_concat_index [OF xc ix] have ic: "index_cells ''time'' c = Some (promoted ?all)" .
  from sortby_index [OF so ic] obtain tm where tm: "index_cells ''time'' m = Some tm"
    "sorted (map cell_key tm)" "mset tm = mset (promoted ?all)"
    by blast
  from tm(1) have tv: "time_values m = tm"
    by (simp add: time_values_def)
  have ts: "time_sorted m"
    unfolding time_sorted_def by (rule sortby_sorted [OF so])
  have a: "index_cells ''time'' m = Some (time_values m)"
    by (simp add: tm(1) tv)
  have b: "sorted (map cell_key (time_values m))"
    by (simp add: tm(2) tv)
  have e: "mset (time_values m) = mset (promoted ?all)"
    by (simp add: tm(3) tv)
  have g: "one_kind ?all \<longrightarrow> mset (time_values m) = mset ?all"
    using e by (simp add: promoted_one_kind)
  from e have "size (mset (time_values m)) = size (mset (promoted ?all))"
    by simp
  then have h: "length (time_values m) = sum_list (map (\<lambda>f. length (time_values f)) frames)"
    by (simp add: promoted_def length_concat comp_def)
  have rows: "mset (obs_rows ''time'' (obs_vars ''time'' (hd frames)) m)
            = mset (concat (map (obs_rows ''time'' (obs_vars ''time'' (hd frames))) frames))"
    if wf: "list_all (well_formed ''time'') frames" and os: "one_schema ''time'' frames"
      and sd: "same_dtypes frames"
  proof -
    let ?names = "obs_vars ''time'' (hd frames)"
    from wf have wf': "\<forall>f\<in>set frames. well_formed ''time'' f"
      by (simp add: list_all_iff)
    from ne have hf: "hd frames \<in> set frames" by simp
    from collected_frames [OF col hf] obtain cf where "process_file open_dataset cf = Inr (hd frames)"
      by blast
    from process_file_time [OF this] obtain v where
      v: "map_of (variables (hd frames)) ''time'' = Some v" "dims v = [''time'']"
      by blast
    from v(1) have mem: "(''time'', v) \<in> set (variables (hd frames))" by (rule map_of_SomeD)
    with v(2) have "''time'' \<in> set ?names"
      by (force simp: obs_vars_def)
    then have nn: "?names \<noteq> []" by auto
    note r = xr_concat_rows [OF xc os wf' sd refl nn]
    from wf' hf have dist: "distinct (var_names (hd frames))" and sl: "\<forall>f\<in>set frames. same_length ''time'' f"
      by (auto simp: well_formed_def)
    from xr_concat_struct(4) [OF xc os dist sl sd mem] v(2)
    have tv: "\<exists>w. map_of (variables c) ''time'' = Some w \<and> dims w = [''time'']"
      by auto
    have "mset (obs_rows ''time'' ?names m) = mset (obs_rows ''time'' ?names c)"
      by (rule sortby_rows [OF so r(3,2) tv r(4)])
    then show ?thesis by (simp only: r(1))
  qed
  from col ne la a ts b e g h rows show ?thesis by blast
qed

lemma list_files_ab:
  "list_files re0 pages0 url nc_tag =
     Inr [Some ''catalog.html?dataset=a.nc'', Some ''catalog.html?dataset=b.nc'']"
  by code_simp

lemma collected_ab:
  assumes "collected re0 pages0 open0 descriptor0 nc_tag frames"
  shows "frames = [frame [0, 3, 5] [10, 13, 15], frame [3, 6, 8] [23, 26, 28]]"
  using assms unfolding collected_def list_files_ab
  by (auto simp: process_file_a process_file_b and_then_def)

lemma well_formed_ab:
  "well_formed ''time'' (frame [0, 3, 5] [10, 13, 15])"
  "well_formed ''time'' (frame [3, 6, 8] [23, 26, 28])"
  by code_simp+

lemma one_schema_ab:
  "one_schema ''time'' [frame [0, 3, 5] [10, 13, 15], frame [3, 6, 8] [23, 26, 28]]"
  "same_dtypes [frame [0, 3, 5] [10, 13, 15], frame [3, 6, 8] [23, 26, 28]]"
  by code_simp+

lemma obs_vars_a: "obs_vars ''time'' (frame [0, 3, 5] [10, 13, 15]) = [''time'', ''temperature'']"
  by code_simp

lemma time_values_frame: "time_values (frame ts temps) = map I ts"
  by (simp add: time_values_def index_cells_def frame_def time_var_def arr1_def cells_of_cells_map
      del: cells_of.simps)

text \<open>
  The scenario: files with the time ranges \<open>[0, 5]\<close> and \<open>[3, 8]\<close>, three observations
  each, merge into one dataset over \<open>[0, 8]\<close> with all six observations, in time order.
\<close>

theorem m2m_collect_merged_witness:
  "m2m_collect re0 pages0 open0 concat0 descriptor0 nc_tag =
     Inr (frame [0, 3, 3, 5, 6, 8] [10, 13, 23, 15, 26, 28])
   \<and> time_sorted (frame [0, 3, 3, 5, 6, 8] [10, 13, 23, 15, 26, 28])
   \<and> mset (map I [0, 3, 3, 5, 6, 8]) = mset (map I [0, 3, 5] @ map I [3, 6, 8])
   \<and> mset (obs_rows ''time'' [''time'', ''temperature''] (frame [0, 3, 3, 5, 6, 8] [10, 13, 23, 15, 26, 28]))
     = mset (obs_rows ''time'' [''time'', ''temperature''] (frame [0, 3, 5] [10, 13, 15])
           @ obs_rows ''time'' [''time'', ''temperature''] (frame [3, 6, 8] [23, 26, 28]))
   \<and> length (obs_rows ''time'' [''time'', ''temperature''] (frame [0, 3, 3, 5, 6, 8] [10, 13, 23, 15, 26, 28])) = 6"
proof -
  from m2m_collect_merged [OF m2m_collect_ab] obtain frames where
    c: "collected re0 pages0 open0 descriptor0 nc_tag frames"
    and t: "time_sorted (frame [0, 3, 3, 5, 6, 8] [10, 13, 23, 15, 26, 28])"
    and k: "one_kind (concat (map time_values frames)) \<longrightarrow>
          mset (time_values (frame [0, 3, 3, 5, 6, 8] [10, 13, 23, 15, 26, 28]))
            = mset (concat (map time_values frames))"
    and r: "list_all (well_formed ''time'') frames \<and> one_schema ''time'' frames \<and> same_dtypes frames \<longrightarrow>
          mset (obs_rows ''time'' (obs_vars ''time'' (hd frames)) (frame [0, 3, 3, 5, 6, 8] [10, 13, 23, 15, 26, 28]))
            = mset (concat (map (obs_rows ''time'' (obs_vars ''time'' (hd frames))) frames))"
    by blast
  note f = collected_ab [OF c]
  have n: "length (obs_rows ''time'' [''time'', ''temperature''] (frame [0, 3, 3, 5, 6, 8] [10, 13, 23, 15, 26, 28])) = 6"
    by code_simp
  have o: "one_kind (map I [0, 3, 5] @ map I [3, 6, 8])"
    by (simp add: one_kind_def)
  from k have k': "mset (map I [0, 3, 3, 5, 6, 8]) = mset (map I [0, 3, 5] @ map I [3, 6, 8])"
    unfolding f using o by (simp only: time_values_frame list.map concat.simps append_Nil2) 
  from r have "mset (obs_rows ''time'' [''time'', ''temperature''] (frame [0, 3, 3, 5, 6, 8] [10, 13, 23, 15, 26, 28]))
     = mset (obs_rows ''time'' [''time'', ''temperature''] (frame [0, 3, 5] [10, 13, 15])
           @ obs_rows ''time'' [''time'', ''temperature''] (frame [3, 6, 8] [23, 26, 28]))"
    unfolding f by (simp add: well_formed_ab one_schema_ab obs_vars_a)
  with t n k' m2m_collect_ab show ?thesis
    by (simp only: simp_thms)
qed


section \<open>Properties of the time conversion\<close>

text \<open>
  The way back: a float count of seconds, multiplied by the float \<open>10 ^ 9\<close>; the product
  is rounded to a float.
\<close>

fun to_nanoseconds :: "cell \<Rightarrow> rat" where
  "to_nanoseconds c = fl64 (astype_float c * 10 ^ 9)"

lemma powi_nat: "0 \<le> p \<Longrightarrow> (2::rat) powi p = 2 ^ nat p"
  by (simp add: power_int_def)

lemma floor_log2_bounds:
  assumes "0 < y"
  shows "2 powi floor_log2 y \<le> y" and "y < 2 powi (floor_log2 y + 1)"
proof -
  obtain a b where q: "quotient_of y = (a, b)" by (cases "quotient_of y")
  then have b: "0 < b" and y: "y = of_int a / of_int b"
    by (auto dest: quotient_of_denom_pos quotient_of_div)
  with assms have a: "0 < a"
    by (simp add: zero_less_divide_iff)
  let ?p = "bitlen a" and ?q = "bitlen b"
  from bitlen_bounds [OF a] bitlen_bounds [OF b]
  have ba: "2 ^ nat (?p - 1) \<le> a" "a < 2 ^ nat ?p" and bb: "2 ^ nat (?q - 1) \<le> b" "b < 2 ^ nat ?q"
    by auto
  have p1: "1 \<le> ?p" and q1: "1 \<le> ?q"
    using a b bitlen_eq_zero_iff [of a] bitlen_eq_zero_iff [of b] bitlen_nonneg [of a] bitlen_nonneg [of b]
    by linarith+
  have "(of_int (2 ^ nat (?p - 1)) :: rat) \<le> of_int a" "(of_int a :: rat) < of_int (2 ^ nat ?p)"
    "(of_int (2 ^ nat (?q - 1)) :: rat) \<le> of_int b" "(of_int b :: rat) < of_int (2 ^ nat ?q)"
    using ba bb by (simp_all only: of_int_le_iff of_int_less_iff)
  then have ra: "(2::rat) powi (?p - 1) \<le> of_int a" "of_int a < (2::rat) powi ?p"
    and rb: "(2::rat) powi (?q - 1) \<le> of_int b" "of_int b < (2::rat) powi ?q"
    using p1 q1 by (simp_all add: powi_nat)
  have pd: "(2::rat) powi (u - v) = 2 powi u / 2 powi v" for u v
    by (rule power_int_diff) simp
  have e1: "(2::rat) powi (?p - ?q + 1) = 2 powi ?p / 2 powi (?q - 1)"
  proof -
    have "?p - ?q + 1 = ?p - (?q - 1)" by simp
    then show ?thesis by (simp only: pd)
  qed
  have e2: "(2::rat) powi (?p - ?q - 1) = 2 powi (?p - 1) / 2 powi ?q"
  proof -
    have "?p - ?q - 1 = (?p - 1) - ?q" by simp
    then show ?thesis by (simp only: pd)
  qed
  have up: "y < 2 powi (?p - ?q + 1)"
    unfolding y e1 using ra rb a by (intro frac_less) simp_all
  have lo: "2 powi (?p - ?q - 1) < y"
    unfolding y e2 using ra rb b by (intro frac_less2) simp_all
  show "2 powi floor_log2 y \<le> y"
    using lo by (auto simp: floor_log2_def q Let_def)
  show "y < 2 powi (floor_log2 y + 1)"
    using up by (auto simp: floor_log2_def q Let_def not_le)
qed

lemma round_half_even_int: "round_half_even (of_int n) = n"
  by (simp add: round_half_even_def)

text \<open>A number with a significand of less than 53 bits is a float: rounding leaves it as it is.\<close>

lemma fl64_exact:
  assumes x: "x = of_int m * 2 powi j" and m: "\<bar>m\<bar> < 2 ^ 53"
  shows "fl64 x = x"
proof (cases "x = 0")
  case True
  then show ?thesis by (simp add: fl64_def)
next
  case False
  define L where "L = floor_log2 \<bar>x\<bar>"
  define e where "e = L - 52"
  from False have pos: "0 < \<bar>x\<bar>" by simp
  note bd = floor_log2_bounds [OF pos, folded L_def]
  have "\<bar>x\<bar> = of_int \<bar>m\<bar> * 2 powi j"
    by (simp add: x abs_mult)
  also have "\<dots> < 2 ^ 53 * 2 powi j"
    using m by (intro mult_strict_right_mono) (simp_all flip: of_int_less_iff [where 'a = rat])
  also have "\<dots> = 2 powi (53 + j)"
    by (simp add: power_int_add)
  finally have "2 powi L < (2::rat) powi (53 + j)"
    using bd(1) by simp
  then have "L < 53 + j"
    by (metis linorder_not_less one_le_numeral power_int_increasing)
  then have ej: "e \<le> j" by (simp add: e_def)
  have "2 powi j = (2::rat) powi (j - e) * 2 powi e"
    by (simp flip: power_int_add)
  also have "(2::rat) powi (j - e) = of_int (2 ^ nat (j - e))"
    using ej by (simp add: powi_nat)
  finally have pj: "2 powi j = (of_int (2 ^ nat (j - e)) :: rat) * 2 powi e" .
  have nz: "(2::rat) powi e \<noteq> 0" by simp
  have "x / 2 powi e = of_int m * (of_int (2 ^ nat (j - e)) * 2 powi e) / 2 powi e"
    by (simp only: x pj [symmetric])
  also have "\<dots> = of_int m * of_int (2 ^ nat (j - e))"
    using nz by simp
  finally have q: "x / 2 powi e = of_int (m * 2 ^ nat (j - e))"
    by simp
  then have r: "round_half_even (x / 2 powi e) = m * 2 ^ nat (j - e)"
    by (simp only: round_half_even_int)
  have "of_int (m * 2 ^ nat (j - e)) * 2 powi e = x / 2 powi e * 2 powi e"
    by (simp only: q)
  also have "\<dots> = x"
    using nz by simp
  finally have "of_int (round_half_even (x / 2 powi e)) * 2 powi e = x"
    by (simp only: r)
  then show ?thesis
    using False by (simp add: fl64_def Let_def e_def L_def)
qed

text \<open>
  C9 (the claim as stated fails). The timestamp of 4611686019 seconds after 1970-01-01
  (in February 2116, within the range of \<^verbatim>\<open>datetime64[ns]\<close>) is aligned to a second, yet
  as a count of nanoseconds it needs 54 bits: \<^verbatim>\<open>dt64_epoch\<close> returns
  \<open>4611686019 + 2 ^ -20\<close> seconds and the way back gives 512 nanoseconds more than the
  timestamp.
\<close>

theorem dt64_epoch_roundtrip_counterexample:
  "dt64_epoch (Cell (I (4611686019 * 10 ^ 9))) = Cell (F (4611686019 + 1 / 2 ^ 20))
   \<and> to_nanoseconds (epoch_seconds (I (4611686019 * 10 ^ 9))) = 4611686019 * 10 ^ 9 + 512
   \<and> to_nanoseconds (epoch_seconds (I (4611686019 * 10 ^ 9))) \<noteq> of_int (4611686019 * 10 ^ 9)"
  by code_simp

text \<open>
  C9 (amended). For every timestamp \<open>T\<close> that is aligned to a second and less than
  \<open>2 ^ 62\<close> nanoseconds from 1970-01-01 in either direction (from November 1823 to
  February 2116), \<^verbatim>\<open>dt64_epoch\<close> returns the number of seconds exactly, and multiplying
  it by \<open>10 ^ 9\<close> gives \<open>T\<close> exactly.
\<close>

theorem dt64_epoch_roundtrip:
  assumes "\<bar>k * 10 ^ 9\<bar> < 2 ^ 62"
  shows "dt64_epoch (Cell (I (k * 10 ^ 9))) = Cell (F (of_int k))
    \<and> to_nanoseconds (epoch_seconds (I (k * 10 ^ 9))) = of_int (k * 10 ^ 9)"
proof -
  have e9: "(10::int) ^ 9 = 5 ^ 9 * 2 ^ 9" by simp
  from assms have "\<bar>k * 5 ^ 9\<bar> * 2 ^ 9 < (2::int) ^ 53 * 2 ^ 9"
    by (simp add: e9 abs_mult)
  then have m: "\<bar>k * 5 ^ 9\<bar> < (2::int) ^ 53"
    by simp
  then have k: "\<bar>k\<bar> < (2::int) ^ 53"
    by (simp add: abs_mult)
  have t: "fl64 (of_int (k * 10 ^ 9)) = of_int (k * 10 ^ 9)"
    by (rule fl64_exact [where m = "k * 5 ^ 9" and j = 9]) (use m in \<open>simp_all\<close>)
  have s: "fl64 (of_int k) = of_int k"
    by (rule fl64_exact [where m = k and j = 0]) (use k in \<open>simp_all\<close>)
  have e: "epoch_seconds (I (k * 10 ^ 9)) = F (of_int k)"
    unfolding epoch_seconds_def astype_float.simps t using s by simp
  have "to_nanoseconds (F (of_int k)) = of_int (k * 10 ^ 9)"
    using t by simp
  with e show ?thesis
    by (simp add: dt64_epoch_def)
qed

theorem dt64_epoch_roundtrip_witness:
  "dt64_epoch (Cell (I (1600000000 * 10 ^ 9))) = Cell (F 1600000000)
   \<and> to_nanoseconds (epoch_seconds (I (1600000000 * 10 ^ 9))) = 1600000000 * 10 ^ 9"
  using dt64_epoch_roundtrip [of 1600000000] by simp

end
